theory Spec2Isabelle
  imports Main
begin

section \<open>Scalar types, faults and the configuration\<close>

text \<open>
  The header is a set of macros that are generic in a scalar type \<open>T\<close> and, for the
  elementwise generators, in an operator token \<open>op\<close>. A scalar type is modelled by what
  the macros use of it: \<open>sizeof(T)\<close>, the value of the initialiser \<open>T accum = 0\<close>,
  and the four operators on two values of \<open>T\<close>, the result converted back to \<open>T\<close> by
  the assignment. An operator may fault (integer division by zero, signed overflow), so it
  returns a result; a floating-point type is an instance whose operators never fault.
\<close>

datatype fault = DivByZero | Overflow | OutOfBounds | Indeterminate

type_synonym 'a result = "fault + 'a"

record 'a scalar =
  size_of :: nat
  lit_zero :: 'a
  op_add :: "'a \<Rightarrow> 'a \<Rightarrow> 'a result"
  op_sub :: "'a \<Rightarrow> 'a \<Rightarrow> 'a result"
  op_mul :: "'a \<Rightarrow> 'a \<Rightarrow> 'a result"
  op_div :: "'a \<Rightarrow> 'a \<Rightarrow> 'a result"

text \<open>
  \<^verbatim>\<open>#define VLEN(T) (XLEN / (8 * sizeof(T)))\<close>
  \<open>sizeof\<close> has type \<open>size_t\<close>, so \<open>XLEN\<close> is converted to \<open>size_t\<close> and both the
  product and the quotient are computed modulo \<open>2 ^ 64\<close> (an LP64 target). \<open>XLEN\<close> is the
  configured register width in bits, a parameter of every definition below.
\<close>

definition SIZE_MOD :: nat where
  "SIZE_MOD = 2 ^ 64"

definition VLEN :: "nat \<Rightarrow> 'a scalar \<Rightarrow> nat" where
  "VLEN xlen T = (xlen mod SIZE_MOD) div ((8 * size_of T) mod SIZE_MOD)"

text \<open>The loop counter of every macro is \<open>int i\<close>; \<open>i++\<close> at \<open>INT_MAX\<close> overflows.\<close>

definition INT_MAX :: nat where
  "INT_MAX = 2147483647"

section \<open>The generated vector type\<close>

text \<open>
  \<^verbatim>\<open>typedef struct simd_t(T) { T v[VLEN(T)]; } simd_t(T);\<close>
  The struct is a record with the one member \<open>v\<close>; \<open>decl_simd_t\<close> holds of the
  values of the type declared for \<open>T\<close> under the width \<open>xlen\<close>: the array has
  exactly \<open>VLEN(T)\<close> cells.
\<close>

record 'a simd_t =
  v :: "'a list"

definition decl_simd_t :: "nat \<Rightarrow> 'a scalar \<Rightarrow> 'a simd_t \<Rightarrow> bool" where
  "decl_simd_t xlen T a \<longleftrightarrow> length (v a) = VLEN xlen T"

text \<open>
  A local \<open>simd_t(T) c;\<close> is declared without an initialiser. Its cells are modelled as
  options, \<open>None\<close> for a cell never written; taking the value of \<open>c\<close> with such a cell
  left is the fault \<open>Indeterminate\<close>.
\<close>

definition uninit_simd_t :: "nat \<Rightarrow> 'a scalar \<Rightarrow> 'a option list" where
  "uninit_simd_t xlen T = replicate (VLEN xlen T) None"

definition value_of :: "'a option list \<Rightarrow> 'a simd_t result" where
  "value_of c = (case those c of None \<Rightarrow> Inl Indeterminate | Some xs \<Rightarrow> Inr \<lparr>v = xs\<rparr>)"

section \<open>Declared binary operations\<close>

text \<open>
  \<^verbatim>\<open>
  simd_t(T) simd_op_name(T,name) (simd_t(T) a, simd_t(T) b) {
      simd_t(T) c;
      for (int i = 0; i < VLEN(T); i++) {
          c.v[i] = a.v[i] op b.v[i];
      }
      return c;
  }
  \<close>
  A real function: its parameters and its local make up a frame, and the loop is a
  transformer of that frame.
\<close>

record 'a bin_op_frame =
  arg_a :: "'a simd_t"
  arg_b :: "'a simd_t"
  loc_c :: "'a option list"

function decl_simd_bin_op_loop ::
  "nat \<Rightarrow> ('a \<Rightarrow> 'a \<Rightarrow> 'a result) \<Rightarrow> nat \<Rightarrow> 'a bin_op_frame \<Rightarrow> 'a bin_op_frame result" where
  "decl_simd_bin_op_loop n op i fr =
     (if i < n then
        (if i < length (v (arg_a fr)) \<and> i < length (v (arg_b fr)) \<and> i < length (loc_c fr) then
           (case op (v (arg_a fr) ! i) (v (arg_b fr) ! i) of
              Inl e \<Rightarrow> Inl e
            | Inr x \<Rightarrow>
                if INT_MAX \<le> i then Inl Overflow
                else decl_simd_bin_op_loop n op (i + 1) (fr\<lparr>loc_c := (loc_c fr)[i := Some x]\<rparr>))
         else Inl OutOfBounds)
      else Inr fr)"
  by pat_completeness auto
termination
  by (relation "measure (\<lambda>(n, op, i, fr). n - i)") auto

declare decl_simd_bin_op_loop.simps [simp del]

definition decl_simd_bin_op ::
  "nat \<Rightarrow> 'a scalar \<Rightarrow> ('a \<Rightarrow> 'a \<Rightarrow> 'a result) \<Rightarrow> 'a simd_t \<Rightarrow> 'a simd_t \<Rightarrow> 'a simd_t result" where
  "decl_simd_bin_op xlen T op a b =
     (case decl_simd_bin_op_loop (VLEN xlen T) op 0
             \<lparr>arg_a = a, arg_b = b, loc_c = uninit_simd_t xlen T\<rparr> of
        Inl e \<Rightarrow> Inl e
      | Inr fr \<Rightarrow> value_of (loc_c fr))"

text \<open>
  \<^verbatim>\<open>#define simd_bin_op(name, T, a, b) simd_op_name(T,name) (a, b)\<close>
  A call: the two argument expressions are evaluated once and passed by value.
\<close>

definition simd_bin_op ::
  "('a simd_t \<Rightarrow> 'a simd_t \<Rightarrow> 'a simd_t result) \<Rightarrow> 'a simd_t result \<Rightarrow> 'a simd_t result
     \<Rightarrow> 'a simd_t result" where
  "simd_bin_op name a b =
     (case a of
        Inl e \<Rightarrow> Inl e
      | Inr av \<Rightarrow> (case b of Inl e \<Rightarrow> Inl e | Inr bv \<Rightarrow> name av bv))"

section \<open>Reductions\<close>

text \<open>
  The remaining macros are statement expressions. A macro argument is an expression, pasted
  into the loop body and so evaluated again at every iteration; it is modelled by the
  outcome of evaluating it (a value or a fault), inspected where the body uses it. The
  outcome is taken not to depend on the locals of the expansion: an operand spelled \<open>c\<close>,
  \<open>i\<close> or \<open>accum\<close> at the call site would be captured by the macro's own variable of
  that name, and only the expression of \<open>simd_reduce_expr\<close> is meant to mention them.

  \<^verbatim>\<open>
  #define simd_reduce_func(T,func,...) \
  ({ T accum = 0; \
     for (int i = 0; i < VLEN(T); i++) { accum = func(accum,i,__VA_ARGS__); } \
     accum; })
  \<close>
\<close>

function simd_reduce_func_loop ::
  "nat \<Rightarrow> ('a \<Rightarrow> nat \<Rightarrow> 'v \<Rightarrow> 'a result) \<Rightarrow> 'v result \<Rightarrow> nat \<Rightarrow> 'a \<Rightarrow> 'a result" where
  "simd_reduce_func_loop n func args i accum =
     (if i < n then
        (case args of
           Inl e \<Rightarrow> Inl e
         | Inr vs \<Rightarrow>
             (case func accum i vs of
                Inl e \<Rightarrow> Inl e
              | Inr x \<Rightarrow>
                  if INT_MAX \<le> i then Inl Overflow
                  else simd_reduce_func_loop n func args (i + 1) x))
      else Inr accum)"
  by pat_completeness auto
termination
  by (relation "measure (\<lambda>(n, func, args, i, accum). n - i)") auto

declare simd_reduce_func_loop.simps [simp del]

definition simd_reduce_func ::
  "nat \<Rightarrow> 'a scalar \<Rightarrow> ('a \<Rightarrow> nat \<Rightarrow> 'v \<Rightarrow> 'a result) \<Rightarrow> 'v result \<Rightarrow> 'a result" where
  "simd_reduce_func xlen T func args =
     simd_reduce_func_loop (VLEN xlen T) func args 0 (lit_zero T)"

text \<open>
  \<^verbatim>\<open>
  #define simd_reduce_expr(T,expr,...) \
  ({ T accum = 0; \
     for (int i = 0; i < VLEN(T); i++) { accum = expr; } \
     accum; })
  \<close>
  The expression is closed over \<open>accum\<close> and \<open>i\<close>; the variadic arguments do not occur
  in the expansion.
\<close>

function simd_reduce_expr_loop ::
  "nat \<Rightarrow> ('a \<Rightarrow> nat \<Rightarrow> 'a result) \<Rightarrow> nat \<Rightarrow> 'a \<Rightarrow> 'a result" where
  "simd_reduce_expr_loop n expr i accum =
     (if i < n then
        (case expr accum i of
           Inl e \<Rightarrow> Inl e
         | Inr x \<Rightarrow>
             if INT_MAX \<le> i then Inl Overflow
             else simd_reduce_expr_loop n expr (i + 1) x)
      else Inr accum)"
  by pat_completeness auto
termination
  by (relation "measure (\<lambda>(n, expr, i, accum). n - i)") auto

declare simd_reduce_expr_loop.simps [simp del]

definition simd_reduce_expr ::
  "nat \<Rightarrow> 'a scalar \<Rightarrow> ('a \<Rightarrow> nat \<Rightarrow> 'a result) \<Rightarrow> 'v result \<Rightarrow> 'a result" where
  "simd_reduce_expr xlen T expr args =
     simd_reduce_expr_loop (VLEN xlen T) expr 0 (lit_zero T)"

text \<open>
  \<^verbatim>\<open>
  #define simd_apply_sum(T, a) \
  ({ T accum = 0; \
     for (int i = 0; i < VLEN(T); i++) { accum += (a).v[i]; } \
     accum; })
  \<close>
\<close>

function simd_apply_sum_loop ::
  "nat \<Rightarrow> 'a scalar \<Rightarrow> 'a simd_t result \<Rightarrow> nat \<Rightarrow> 'a \<Rightarrow> 'a result" where
  "simd_apply_sum_loop n T a i accum =
     (if i < n then
        (case a of
           Inl e \<Rightarrow> Inl e
         | Inr av \<Rightarrow>
             if i < length (v av) then
               (case op_add T accum (v av ! i) of
                  Inl e \<Rightarrow> Inl e
                | Inr x \<Rightarrow>
                    if INT_MAX \<le> i then Inl Overflow
                    else simd_apply_sum_loop n T a (i + 1) x)
             else Inl OutOfBounds)
      else Inr accum)"
  by pat_completeness auto
termination
  by (relation "measure (\<lambda>(n, T, a, i, accum). n - i)") auto

declare simd_apply_sum_loop.simps [simp del]

definition simd_apply_sum :: "nat \<Rightarrow> 'a scalar \<Rightarrow> 'a simd_t result \<Rightarrow> 'a result" where
  "simd_apply_sum xlen T a = simd_apply_sum_loop (VLEN xlen T) T a 0 (lit_zero T)"

section \<open>Built-in elementwise operations and the dot product\<close>

text \<open>
  \<^verbatim>\<open>
  #define simd_apply_binop(T, a, b, op) \
  ({ simd_t(T) c; \
     for (int i = 0; i < VLEN(T); i++) { c.v[i] = (a).v[i] op (b).v[i]; } \
     c; })
  \<close>
  The operand \<open>(a)\<close> is evaluated before \<open>(b)\<close> here; C leaves the order open, and it
  shows only in which of two faults is reported.
\<close>

function simd_apply_binop_loop ::
  "nat \<Rightarrow> 'a simd_t result \<Rightarrow> 'a simd_t result \<Rightarrow> ('a \<Rightarrow> 'a \<Rightarrow> 'a result) \<Rightarrow> nat
     \<Rightarrow> 'a option list \<Rightarrow> 'a option list result" where
  "simd_apply_binop_loop n a b op i c =
     (if i < n then
        (case a of
           Inl e \<Rightarrow> Inl e
         | Inr av \<Rightarrow>
             (case b of
                Inl e \<Rightarrow> Inl e
              | Inr bv \<Rightarrow>
                  if i < length (v av) \<and> i < length (v bv) \<and> i < length c then
                    (case op (v av ! i) (v bv ! i) of
                       Inl e \<Rightarrow> Inl e
                     | Inr x \<Rightarrow>
                         if INT_MAX \<le> i then Inl Overflow
                         else simd_apply_binop_loop n a b op (i + 1) (c[i := Some x]))
                  else Inl OutOfBounds))
      else Inr c)"
  by pat_completeness auto
termination
  by (relation "measure (\<lambda>(n, a, b, op, i, c). n - i)") auto

declare simd_apply_binop_loop.simps [simp del]

definition simd_apply_binop ::
  "nat \<Rightarrow> 'a scalar \<Rightarrow> 'a simd_t result \<Rightarrow> 'a simd_t result \<Rightarrow> ('a \<Rightarrow> 'a \<Rightarrow> 'a result)
     \<Rightarrow> 'a simd_t result" where
  "simd_apply_binop xlen T a b op =
     (case simd_apply_binop_loop (VLEN xlen T) a b op 0 (uninit_simd_t xlen T) of
        Inl e \<Rightarrow> Inl e
      | Inr c \<Rightarrow> value_of c)"

definition simd_apply_add ::
  "nat \<Rightarrow> 'a scalar \<Rightarrow> 'a simd_t result \<Rightarrow> 'a simd_t result \<Rightarrow> 'a simd_t result" where
  "simd_apply_add xlen T a b = simd_apply_binop xlen T a b (op_add T)"

definition simd_apply_sub ::
  "nat \<Rightarrow> 'a scalar \<Rightarrow> 'a simd_t result \<Rightarrow> 'a simd_t result \<Rightarrow> 'a simd_t result" where
  "simd_apply_sub xlen T a b = simd_apply_binop xlen T a b (op_sub T)"

definition simd_apply_mul ::
  "nat \<Rightarrow> 'a scalar \<Rightarrow> 'a simd_t result \<Rightarrow> 'a simd_t result \<Rightarrow> 'a simd_t result" where
  "simd_apply_mul xlen T a b = simd_apply_binop xlen T a b (op_mul T)"

definition simd_apply_div ::
  "nat \<Rightarrow> 'a scalar \<Rightarrow> 'a simd_t result \<Rightarrow> 'a simd_t result \<Rightarrow> 'a simd_t result" where
  "simd_apply_div xlen T a b = simd_apply_binop xlen T a b (op_div T)"

text \<open>
  \<^verbatim>\<open>#define simd_apply_dot(T, a, b) simd_apply_sum(T, simd_apply_mul(T, a, b))\<close>
  The product is the argument expression of the sum, so the expansion computes it anew
  inside every iteration of the summing loop.
\<close>

definition simd_apply_dot ::
  "nat \<Rightarrow> 'a scalar \<Rightarrow> 'a simd_t result \<Rightarrow> 'a simd_t result \<Rightarrow> 'a result" where
  "simd_apply_dot xlen T a b = simd_apply_sum xlen T (simd_apply_mul xlen T a b)"

section \<open>The macros as transformers of the variables in scope\<close>

text \<open>
  The statement expressions run in the scope of the call site. Read as state transformers,
  they act on the variables that their bodies mention: the operand variables of the call
  site and the locals \<open>c\<close> and \<open>accum\<close> that the expansion declares. Every read of an
  operand is a read of the current state, every assignment of the body an update of it, so
  that what a run leaves of the operands is a matter of proof.
\<close>

record ('a, 'v) macro_env =
  operands :: 'v
  var_c :: "'a option list"
  var_accum :: 'a

text \<open>The value of the statement expression: its last expression, \<open>c;\<close> or \<open>accum;\<close>.\<close>

definition yield_c :: "('a, 'v) macro_env result \<Rightarrow> 'a simd_t result" where
  "yield_c r = (case r of Inl e \<Rightarrow> Inl e | Inr env \<Rightarrow> value_of (var_c env))"

definition yield_accum :: "('a, 'v) macro_env result \<Rightarrow> 'a result" where
  "yield_accum r = (case r of Inl e \<Rightarrow> Inl e | Inr env \<Rightarrow> Inr (var_accum env))"

text \<open>
  \<^verbatim>\<open>for (int i = 0; i < VLEN(T); i++) { c.v[i] = (a).v[i] op (b).v[i]; }\<close>
  with the operand variables \<open>a\<close> and \<open>b\<close> as the two components of \<open>operands\<close>.
\<close>

function simd_apply_binop_exec ::
  "nat \<Rightarrow> ('a \<Rightarrow> 'a \<Rightarrow> 'a result) \<Rightarrow> nat \<Rightarrow> ('a, 'a simd_t \<times> 'a simd_t) macro_env
     \<Rightarrow> ('a, 'a simd_t \<times> 'a simd_t) macro_env result" where
  "simd_apply_binop_exec n op i env =
     (if i < n then
        (if i < length (v (fst (operands env))) \<and> i < length (v (snd (operands env)))
            \<and> i < length (var_c env) then
           (case op (v (fst (operands env)) ! i) (v (snd (operands env)) ! i) of
              Inl e \<Rightarrow> Inl e
            | Inr x \<Rightarrow>
                if INT_MAX \<le> i then Inl Overflow
                else simd_apply_binop_exec n op (i + 1) (env\<lparr>var_c := (var_c env)[i := Some x]\<rparr>))
         else Inl OutOfBounds)
      else Inr env)"
  by pat_completeness auto
termination
  by (relation "measure (\<lambda>(n, op, i, env). n - i)") auto

declare simd_apply_binop_exec.simps [simp del]

text \<open>\<^verbatim>\<open>simd_t(T) c;\<close> and the loop.\<close>

definition simd_apply_binop_run ::
  "nat \<Rightarrow> 'a scalar \<Rightarrow> ('a \<Rightarrow> 'a \<Rightarrow> 'a result) \<Rightarrow> ('a, 'a simd_t \<times> 'a simd_t) macro_env
     \<Rightarrow> ('a, 'a simd_t \<times> 'a simd_t) macro_env result" where
  "simd_apply_binop_run xlen T op env =
     simd_apply_binop_exec (VLEN xlen T) op 0 (env\<lparr>var_c := uninit_simd_t xlen T\<rparr>)"

text \<open>\<^verbatim>\<open>for (int i = 0; i < VLEN(T); i++) { accum += (a).v[i]; }\<close>\<close>

function simd_apply_sum_exec ::
  "nat \<Rightarrow> 'a scalar \<Rightarrow> nat \<Rightarrow> ('a, 'a simd_t) macro_env \<Rightarrow> ('a, 'a simd_t) macro_env result" where
  "simd_apply_sum_exec n T i env =
     (if i < n then
        (if i < length (v (operands env)) then
           (case op_add T (var_accum env) (v (operands env) ! i) of
              Inl e \<Rightarrow> Inl e
            | Inr x \<Rightarrow>
                if INT_MAX \<le> i then Inl Overflow
                else simd_apply_sum_exec n T (i + 1) (env\<lparr>var_accum := x\<rparr>))
         else Inl OutOfBounds)
      else Inr env)"
  by pat_completeness auto
termination
  by (relation "measure (\<lambda>(n, T, i, env). n - i)") auto

declare simd_apply_sum_exec.simps [simp del]

text \<open>\<^verbatim>\<open>T accum = 0;\<close> and the loop.\<close>

definition simd_apply_sum_run ::
  "nat \<Rightarrow> 'a scalar \<Rightarrow> ('a, 'a simd_t) macro_env \<Rightarrow> ('a, 'a simd_t) macro_env result" where
  "simd_apply_sum_run xlen T env =
     simd_apply_sum_exec (VLEN xlen T) T 0 (env\<lparr>var_accum := lit_zero T\<rparr>)"

text \<open>
  \<^verbatim>\<open>for (int i = 0; i < VLEN(T); i++) { accum = func(accum,i,__VA_ARGS__); }\<close>
  The call passes the current values of its arguments.
\<close>

function simd_reduce_func_exec ::
  "nat \<Rightarrow> ('a \<Rightarrow> nat \<Rightarrow> 'v \<Rightarrow> 'a result) \<Rightarrow> nat \<Rightarrow> ('a, 'v) macro_env
     \<Rightarrow> ('a, 'v) macro_env result" where
  "simd_reduce_func_exec n func i env =
     (if i < n then
        (case func (var_accum env) i (operands env) of
           Inl e \<Rightarrow> Inl e
         | Inr x \<Rightarrow>
             if INT_MAX \<le> i then Inl Overflow
             else simd_reduce_func_exec n func (i + 1) (env\<lparr>var_accum := x\<rparr>))
      else Inr env)"
  by pat_completeness auto
termination
  by (relation "measure (\<lambda>(n, func, i, env). n - i)") auto

declare simd_reduce_func_exec.simps [simp del]

definition simd_reduce_func_run ::
  "nat \<Rightarrow> 'a scalar \<Rightarrow> ('a \<Rightarrow> nat \<Rightarrow> 'v \<Rightarrow> 'a result) \<Rightarrow> ('a, 'v) macro_env
     \<Rightarrow> ('a, 'v) macro_env result" where
  "simd_reduce_func_run xlen T func env =
     simd_reduce_func_exec (VLEN xlen T) func 0 (env\<lparr>var_accum := lit_zero T\<rparr>)"

text \<open>
  \<^verbatim>\<open>for (int i = 0; i < VLEN(T); i++) { accum = expr; }\<close>
  The expression is an rvalue over \<open>accum\<close>, \<open>i\<close> and the vectors in scope, read from
  the current state.
\<close>

function simd_reduce_expr_exec ::
  "nat \<Rightarrow> ('a \<Rightarrow> nat \<Rightarrow> 'v \<Rightarrow> 'a result) \<Rightarrow> nat \<Rightarrow> ('a, 'v) macro_env
     \<Rightarrow> ('a, 'v) macro_env result" where
  "simd_reduce_expr_exec n expr i env =
     (if i < n then
        (case expr (var_accum env) i (operands env) of
           Inl e \<Rightarrow> Inl e
         | Inr x \<Rightarrow>
             if INT_MAX \<le> i then Inl Overflow
             else simd_reduce_expr_exec n expr (i + 1) (env\<lparr>var_accum := x\<rparr>))
      else Inr env)"
  by pat_completeness auto
termination
  by (relation "measure (\<lambda>(n, expr, i, env). n - i)") auto

declare simd_reduce_expr_exec.simps [simp del]

definition simd_reduce_expr_run ::
  "nat \<Rightarrow> 'a scalar \<Rightarrow> ('a \<Rightarrow> nat \<Rightarrow> 'v \<Rightarrow> 'a result) \<Rightarrow> ('a, 'v) macro_env
     \<Rightarrow> ('a, 'v) macro_env result" where
  "simd_reduce_expr_run xlen T expr env =
     simd_reduce_expr_exec (VLEN xlen T) expr 0 (env\<lparr>var_accum := lit_zero T\<rparr>)"

text \<open>
  The dot product: the summing loop whose operand is the product's statement expression,
  \<^verbatim>\<open>accum += (({ simd_t(T) c; for (...) { c.v[i] = (a).v[i] * (b).v[i]; } c; })).v[i];\<close>
  so each iteration runs the whole inner loop on the current state, with the inner block's
  own \<open>c\<close> and \<open>i\<close>, and then reads cell \<open>i\<close> of its value.
\<close>

function simd_apply_dot_exec ::
  "nat \<Rightarrow> 'a scalar \<Rightarrow> nat \<Rightarrow> ('a, 'a simd_t \<times> 'a simd_t) macro_env
     \<Rightarrow> ('a, 'a simd_t \<times> 'a simd_t) macro_env result" where
  "simd_apply_dot_exec xlen T i env =
     (if i < VLEN xlen T then
        (case simd_apply_binop_run xlen T (op_mul T) env of
           Inl e \<Rightarrow> Inl e
         | Inr env1 \<Rightarrow>
             (case value_of (var_c env1) of
                Inl e \<Rightarrow> Inl e
              | Inr p \<Rightarrow>
                  if i < length (v p) then
                    (case op_add T (var_accum env1) (v p ! i) of
                       Inl e \<Rightarrow> Inl e
                     | Inr x \<Rightarrow>
                         if INT_MAX \<le> i then Inl Overflow
                         else simd_apply_dot_exec xlen T (i + 1) (env1\<lparr>var_accum := x\<rparr>))
                  else Inl OutOfBounds))
      else Inr env)"
  by pat_completeness auto
termination
  by (relation "measure (\<lambda>(xlen, T, i, env). VLEN xlen T - i)") auto

declare simd_apply_dot_exec.simps [simp del]

definition simd_apply_dot_run ::
  "nat \<Rightarrow> 'a scalar \<Rightarrow> ('a, 'a simd_t \<times> 'a simd_t) macro_env
     \<Rightarrow> ('a, 'a simd_t \<times> 'a simd_t) macro_env result" where
  "simd_apply_dot_run xlen T env =
     simd_apply_dot_exec xlen T 0 (env\<lparr>var_accum := lit_zero T\<rparr>)"

section \<open>C integer types as scalar types\<close>

text \<open>
  The integer instances of a scalar type: a signedness and a size in bytes, values as
  mathematical integers within the range of the type. Operands of a type narrower than
  \<open>int\<close> (32 bits) are promoted to \<open>int\<close>; signed arithmetic that leaves the range of
  the promoted type is undefined behaviour, the fault \<open>Overflow\<close>; unsigned arithmetic
  wraps. The assignment converts the result back to the type, modulo \<open>2 ^ bits\<close>.
  Division truncates towards zero and faults on a zero divisor.
\<close>

datatype signedness = Signed | Unsigned

definition c_lo :: "signedness \<Rightarrow> nat \<Rightarrow> int" where
  "c_lo s bits = (case s of Signed \<Rightarrow> - (2 ^ (bits - 1)) | Unsigned \<Rightarrow> 0)"

definition c_hi :: "signedness \<Rightarrow> nat \<Rightarrow> int" where
  "c_hi s bits = (case s of Signed \<Rightarrow> 2 ^ (bits - 1) - 1 | Unsigned \<Rightarrow> 2 ^ bits - 1)"

definition c_convert :: "signedness \<Rightarrow> nat \<Rightarrow> int \<Rightarrow> int" where
  "c_convert s bits r =
     (case s of
        Signed \<Rightarrow> (r + 2 ^ (bits - 1)) mod 2 ^ bits - 2 ^ (bits - 1)
      | Unsigned \<Rightarrow> r mod 2 ^ bits)"

definition c_promote :: "signedness \<Rightarrow> nat \<Rightarrow> signedness \<times> nat" where
  "c_promote s bits = (if bits < 32 then (Signed, 32) else (s, bits))"

definition c_arith ::
  "(int \<Rightarrow> int \<Rightarrow> int) \<Rightarrow> signedness \<Rightarrow> nat \<Rightarrow> int \<Rightarrow> int \<Rightarrow> int result" where
  "c_arith f s bits x y =
     (case c_promote s bits of
        (Signed, pbits) \<Rightarrow>
          if f x y < c_lo Signed pbits \<or> c_hi Signed pbits < f x y then Inl Overflow
          else Inr (c_convert s bits (f x y))
      | (Unsigned, pbits) \<Rightarrow> Inr (c_convert s bits (f x y mod 2 ^ pbits)))"

definition c_quot :: "int \<Rightarrow> int \<Rightarrow> int" where
  "c_quot x y = sgn x * sgn y * (\<bar>x\<bar> div \<bar>y\<bar>)"

definition c_div :: "signedness \<Rightarrow> nat \<Rightarrow> int \<Rightarrow> int \<Rightarrow> int result" where
  "c_div s bits x y =
     (if y = 0 then Inl DivByZero
      else
        (case c_promote s bits of
           (Signed, pbits) \<Rightarrow>
             if x = c_lo Signed pbits \<and> y = - 1 then Inl Overflow
             else Inr (c_convert s bits (c_quot x y))
         | (Unsigned, pbits) \<Rightarrow> Inr (c_convert s bits (c_quot x y))))"

definition c_integer :: "signedness \<Rightarrow> nat \<Rightarrow> int scalar" where
  "c_integer s bytes =
     \<lparr>size_of = bytes, lit_zero = 0,
      op_add = c_arith (+) s (8 * bytes), op_sub = c_arith (-) s (8 * bytes),
      op_mul = c_arith (*) s (8 * bytes), op_div = c_div s (8 * bytes)\<rparr>"

section \<open>Reference folds\<close>

text \<open>
  The specification describes the loops in words: a left-to-right fold over the ascending
  indices for a reduction, an index-by-index map for an elementwise operation. These two
  functions write that down, stopping at the first fault, for comparison with the loops
  translated from the macros.
\<close>

primrec fold_result :: "('a \<Rightarrow> 'b \<Rightarrow> 'a result) \<Rightarrow> 'a \<Rightarrow> 'b list \<Rightarrow> 'a result" where
  "fold_result f acc [] = Inr acc"
| "fold_result f acc (x # xs) =
     (case f acc x of Inl e \<Rightarrow> Inl e | Inr acc' \<Rightarrow> fold_result f acc' xs)"

primrec map_result :: "('b \<Rightarrow> 'a result) \<Rightarrow> 'b list \<Rightarrow> 'a list result" where
  "map_result f [] = Inr []"
| "map_result f (x # xs) =
     (case f x of
        Inl e \<Rightarrow> Inl e
      | Inr y \<Rightarrow> (case map_result f xs of Inl e \<Rightarrow> Inl e | Inr ys \<Rightarrow> Inr (y # ys)))"

text \<open>
  The specification's words for the dot product: the elementwise products, computed first,
  then summed from a zero accumulator over the ascending indices.
\<close>

definition sum_of_products :: "nat \<Rightarrow> 'a scalar \<Rightarrow> 'a simd_t \<Rightarrow> 'a simd_t \<Rightarrow> 'a result" where
  "sum_of_products xlen T a b =
     (case map_result (\<lambda>i. op_mul T (v a ! i) (v b ! i)) [0..<VLEN xlen T] of
        Inl e \<Rightarrow> Inl e
      | Inr ps \<Rightarrow> fold_result (op_add T) (lit_zero T) ps)"

section \<open>The loops in closed form\<close>

lemma those_map_Some: "those (map Some xs) = Some xs"
  by (induction xs) simp_all

lemma value_of_map_Some: "value_of (map Some xs) = Inr \<lparr>v = xs\<rparr>"
  by (simp add: value_of_def those_map_Some)

lemma map_result_Inr_iff:
  "map_result f xs = Inr ys \<longleftrightarrow>
     length ys = length xs \<and> (\<forall>k<length xs. f (xs ! k) = Inr (ys ! k))"
proof (induction xs arbitrary: ys)
  case Nil
  show ?case by auto
next
  case (Cons x xs)
  show ?case
  proof (cases "f x")
    case (Inl e)
    then show ?thesis by force
  next
    case fx: (Inr y)
    show ?thesis
    proof (cases "map_result f xs")
      case (Inl e)
      have "\<not> (length (tl ys) = length xs \<and> (\<forall>k<length xs. f (xs ! k) = Inr (tl ys ! k)))"
        using Cons.IH [of "tl ys"] Inl by simp
      then show ?thesis
        using fx Inl by (cases ys) (auto simp: nth_Cons')
    next
      case (Inr zs)
      then have zs: "length zs = length xs" "\<forall>k<length xs. f (xs ! k) = Inr (zs ! k)"
        using Cons.IH [of zs] by simp_all
      show ?thesis
      proof
        assume "map_result f (x # xs) = Inr ys"
        then have "ys = y # zs" using fx Inr by simp
        then show "length ys = length (x # xs) \<and> (\<forall>k<length (x # xs). f ((x # xs) ! k) = Inr (ys ! k))"
          using zs fx by (auto simp: nth_Cons split: nat.splits)
      next
        assume R: "length ys = length (x # xs) \<and> (\<forall>k<length (x # xs). f ((x # xs) ! k) = Inr (ys ! k))"
        then obtain y' ys' where ys: "ys = y' # ys'" by (cases ys) auto
        from R ys have "f x = Inr y'" by auto
        then have y': "y' = y" using fx by simp
        from R ys have "length ys' = length xs \<and> (\<forall>k<length xs. f (xs ! k) = Inr (ys' ! k))"
          by auto
        then have "map_result f xs = Inr ys'" using Cons.IH [of ys'] by simp
        then show "map_result f (x # xs) = Inr ys" using fx ys y' by simp
      qed
    qed
  qed
qed

lemma map_result_first_fault:
  assumes "k < length xs" "f (xs ! k) = Inl e" "\<forall>j<k. \<exists>y. f (xs ! j) = Inr y"
  shows "map_result f xs = Inl e"
  using assms
proof (induction xs arbitrary: k)
  case Nil
  then show ?case by simp
next
  case (Cons x xs)
  show ?case
  proof (cases k)
    case 0
    then show ?thesis using Cons.prems by simp
  next
    case (Suc k')
    then obtain y where y: "f x = Inr y" using Cons.prems(3) by force
    have "map_result f xs = Inl e"
    proof (rule Cons.IH [of k'])
      show "k' < length xs" using Cons.prems(1) Suc by simp
      show "f (xs ! k') = Inl e" using Cons.prems(2) Suc by simp
      show "\<forall>j<k'. \<exists>y. f (xs ! j) = Inr y"
      proof (intro allI impI)
        fix j assume "j < k'"
        then have "Suc j < k" using Suc by simp
        then have "\<exists>y. f ((x # xs) ! Suc j) = Inr y" using Cons.prems(3) by blast
        then show "\<exists>y. f (xs ! j) = Inr y" by simp
      qed
    qed
    then show ?thesis using y by simp
  qed
qed

lemma fold_result_map:
  "fold_result (\<lambda>acc j. f acc (g j)) acc js = fold_result f acc (map g js)"
  by (induction js arbitrary: acc) (simp_all split: sum.splits)

lemma fold_result_nth:
  "fold_result (\<lambda>acc j. f acc (xs ! j)) acc [0..<length xs] = fold_result f acc xs"
  by (simp add: fold_result_map map_nth)

lemma simd_apply_binop_loop_eq:
  assumes "length (v av) = n" "length (v bv) = n" "length c = n" "n \<le> INT_MAX"
  shows "simd_apply_binop_loop n (Inr av) (Inr bv) op i c =
           (case map_result (\<lambda>j. op (v av ! j) (v bv ! j)) [i..<n] of
              Inl e \<Rightarrow> Inl e
            | Inr xs \<Rightarrow> Inr (take i c @ map Some xs))"
  using assms(3)
proof (induction "n - i" arbitrary: i c)
  case 0
  then show ?case
    by (simp add: simd_apply_binop_loop.simps [of n _ _ op i c])
next
  case (Suc d)
  note unf = simd_apply_binop_loop.simps [of n "Inr av" "Inr bv" op i c]
  from Suc have lt: "i < n" and d: "d = n - (i + 1)" by simp_all
  have up: "[i..<n] = i # [i + 1..<n]" using lt by (simp add: upt_conv_Cons)
  have nov: "\<not> INT_MAX \<le> i" using lt assms(4) by simp
  show ?case
  proof (cases "op (v av ! i) (v bv ! i)")
    case (Inl e)
    then show ?thesis using lt assms(1,2) Suc.prems up by (simp add: unf)
  next
    case (Inr x)
    have len: "length (c[i := Some x]) = n" using Suc.prems by simp
    have tk: "take (i + 1) (c[i := Some x]) = take i c @ [Some x]"
      using lt Suc.prems by (simp add: take_Suc_conv_app_nth)
    have step: "simd_apply_binop_loop n (Inr av) (Inr bv) op i c =
                simd_apply_binop_loop n (Inr av) (Inr bv) op (i + 1) (c[i := Some x])"
      using lt nov assms(1,2) Suc.prems Inr by (simp add: unf)
    show ?thesis
      unfolding step Suc.hyps(1) [OF d len] up
      using Inr tk by (simp split: sum.splits)
  qed
qed

lemma simd_apply_binop_eq:
  assumes "decl_simd_t xlen T a" "decl_simd_t xlen T b" "VLEN xlen T \<le> INT_MAX"
  shows "simd_apply_binop xlen T (Inr a) (Inr b) op =
           (case map_result (\<lambda>j. op (v a ! j) (v b ! j)) [0..<VLEN xlen T] of
              Inl e \<Rightarrow> Inl e
            | Inr xs \<Rightarrow> Inr \<lparr>v = xs\<rparr>)"
proof -
  have "simd_apply_binop_loop (VLEN xlen T) (Inr a) (Inr b) op 0 (uninit_simd_t xlen T) =
          (case map_result (\<lambda>j. op (v a ! j) (v b ! j)) [0..<VLEN xlen T] of
              Inl e \<Rightarrow> Inl e
            | Inr xs \<Rightarrow> Inr (take 0 (uninit_simd_t xlen T) @ map Some xs))"
    using assms by (intro simd_apply_binop_loop_eq) (simp_all add: decl_simd_t_def uninit_simd_t_def)
  then show ?thesis
    by (simp add: simd_apply_binop_def value_of_map_Some split: sum.splits)
qed

lemma simd_apply_binop_Inr_iff:
  assumes "decl_simd_t xlen T a" "decl_simd_t xlen T b" "VLEN xlen T \<le> INT_MAX"
  shows "simd_apply_binop xlen T (Inr a) (Inr b) op = Inr c \<longleftrightarrow>
           decl_simd_t xlen T c \<and> (\<forall>i<VLEN xlen T. op (v a ! i) (v b ! i) = Inr (v c ! i))"
proof -
  let ?n = "VLEN xlen T"
  let ?g = "\<lambda>j. op (v a ! j) (v b ! j)"
  have "simd_apply_binop xlen T (Inr a) (Inr b) op = Inr c \<longleftrightarrow> map_result ?g [0..<?n] = Inr (v c)"
    unfolding simd_apply_binop_eq [OF assms] by (cases c) (auto split: sum.splits)
  also have "\<dots> \<longleftrightarrow> length (v c) = ?n \<and> (\<forall>k<?n. ?g k = Inr (v c ! k))"
    by (simp add: map_result_Inr_iff)
  finally show ?thesis by (simp add: decl_simd_t_def)
qed

lemma decl_simd_bin_op_loop_macro:
  "decl_simd_bin_op_loop n op i fr =
     (case simd_apply_binop_loop n (Inr (arg_a fr)) (Inr (arg_b fr)) op i (loc_c fr) of
        Inl e \<Rightarrow> Inl e
      | Inr c \<Rightarrow> Inr (fr\<lparr>loc_c := c\<rparr>))"
proof (induction "n - i" arbitrary: i fr)
  case 0
  then show ?case
    by (simp add: decl_simd_bin_op_loop.simps [of n op i fr]
        simd_apply_binop_loop.simps [of n _ _ op i "loc_c fr"])
next
  case (Suc d)
  note unfD = decl_simd_bin_op_loop.simps [of n op i fr]
  note unfM = simd_apply_binop_loop.simps [of n "Inr (arg_a fr)" "Inr (arg_b fr)" op i "loc_c fr"]
  from Suc have lt: "i < n" and d: "d = n - (i + 1)" by simp_all
  show ?case
  proof (cases "i < length (v (arg_a fr)) \<and> i < length (v (arg_b fr)) \<and> i < length (loc_c fr)")
    case False
    then show ?thesis using lt by (auto simp: unfD unfM)
  next
    case inb: True
    show ?thesis
    proof (cases "op (v (arg_a fr) ! i) (v (arg_b fr) ! i)")
      case (Inl e)
      then show ?thesis using lt inb by (simp add: unfD unfM)
    next
      case (Inr x)
      show ?thesis
      proof (cases "INT_MAX \<le> i")
        case True
        then show ?thesis using lt inb Inr by (simp add: unfD unfM)
      next
        case False
        let ?fr = "fr\<lparr>loc_c := (loc_c fr)[i := Some x]\<rparr>"
        have l: "decl_simd_bin_op_loop n op i fr = decl_simd_bin_op_loop n op (i + 1) ?fr"
          using lt inb Inr False by (simp add: unfD)
        have r: "simd_apply_binop_loop n (Inr (arg_a fr)) (Inr (arg_b fr)) op i (loc_c fr) =
                 simd_apply_binop_loop n (Inr (arg_a ?fr)) (Inr (arg_b ?fr)) op (i + 1) (loc_c ?fr)"
          using lt inb Inr False by (simp add: unfM)
        show ?thesis
          unfolding l r Suc.hyps(1) [OF d, of ?fr] by (simp split: sum.splits)
      qed
    qed
  qed
qed

lemma decl_simd_bin_op_loop_frame:
  "decl_simd_bin_op_loop n op i fr = Inr fr' \<Longrightarrow> arg_a fr' = arg_a fr \<and> arg_b fr' = arg_b fr"
  by (auto simp: decl_simd_bin_op_loop_macro split: sum.splits)

lemma simd_bin_op_decl_eq:
  "simd_bin_op (decl_simd_bin_op xlen T op) (Inr a) (Inr b) = simd_apply_binop xlen T (Inr a) (Inr b) op"
  by (simp add: simd_bin_op_def decl_simd_bin_op_def simd_apply_binop_def
      decl_simd_bin_op_loop_macro split: sum.splits)

lemma simd_reduce_func_loop_eq:
  assumes "n \<le> INT_MAX"
  shows "simd_reduce_func_loop n func (Inr vs) i accum =
           fold_result (\<lambda>acc j. func acc j vs) accum [i..<n]"
proof (induction "n - i" arbitrary: i accum)
  case 0
  then show ?case
    by (simp add: simd_reduce_func_loop.simps [of n func _ i accum])
next
  case (Suc d)
  note unf = simd_reduce_func_loop.simps [of n func "Inr vs" i accum]
  from Suc have lt: "i < n" and d: "d = n - (i + 1)" by simp_all
  have up: "[i..<n] = i # [i + 1..<n]" using lt by (simp add: upt_conv_Cons)
  have nov: "\<not> INT_MAX \<le> i" using lt assms by simp
  show ?case
  proof (cases "func accum i vs")
    case (Inl e)
    then show ?thesis using lt up by (simp add: unf)
  next
    case (Inr x)
    have "simd_reduce_func_loop n func (Inr vs) i accum =
          simd_reduce_func_loop n func (Inr vs) (i + 1) x"
      using lt nov Inr by (simp add: unf)
    then show ?thesis
      unfolding up using Suc.hyps(1) [OF d, of x] Inr by simp
  qed
qed

lemma simd_reduce_expr_loop_func:
  assumes "\<forall>acc j. j < n \<longrightarrow> expr acc j = func acc j vs"
  shows "simd_reduce_expr_loop n expr i accum = simd_reduce_func_loop n func (Inr vs) i accum"
proof (induction "n - i" arbitrary: i accum)
  case 0
  then show ?case
    by (simp add: simd_reduce_expr_loop.simps [of n expr i accum]
        simd_reduce_func_loop.simps [of n func _ i accum])
next
  case (Suc d)
  note unfE = simd_reduce_expr_loop.simps [of n expr i accum]
  note unfF = simd_reduce_func_loop.simps [of n func "Inr vs" i accum]
  from Suc have lt: "i < n" and d: "d = n - (i + 1)" by simp_all
  have same: "expr accum i = func accum i vs" using assms lt by simp
  show ?case
  proof (cases "func accum i vs")
    case (Inl e)
    then show ?thesis using lt same by (simp add: unfE unfF)
  next
    case (Inr x)
    show ?thesis
    proof (cases "INT_MAX \<le> i")
      case True
      then show ?thesis using lt same Inr by (simp add: unfE unfF)
    next
      case False
      have l: "simd_reduce_expr_loop n expr i accum = simd_reduce_expr_loop n expr (i + 1) x"
        using lt same Inr False by (simp add: unfE)
      have r: "simd_reduce_func_loop n func (Inr vs) i accum =
               simd_reduce_func_loop n func (Inr vs) (i + 1) x"
        using lt Inr False by (simp add: unfF)
      show ?thesis unfolding l r by (rule Suc.hyps(1) [OF d])
    qed
  qed
qed

lemma simd_apply_sum_loop_func:
  assumes "n \<le> length (v av)"
  shows "simd_apply_sum_loop n T (Inr av) i accum =
           simd_reduce_func_loop n (\<lambda>acc j a. op_add T acc (v a ! j)) (Inr av) i accum"
proof (induction "n - i" arbitrary: i accum)
  case 0
  then show ?case
    by (simp add: simd_apply_sum_loop.simps [of n T _ i accum]
        simd_reduce_func_loop.simps [of n _ _ i accum])
next
  case (Suc d)
  let ?f = "\<lambda>acc j a. op_add T acc (v a ! j)"
  note unfS = simd_apply_sum_loop.simps [of n T "Inr av" i accum]
  note unfF = simd_reduce_func_loop.simps [of n ?f "Inr av" i accum]
  from Suc have lt: "i < n" and d: "d = n - (i + 1)" by simp_all
  have inb: "i < length (v av)" using lt assms by simp
  show ?case
  proof (cases "op_add T accum (v av ! i)")
    case (Inl e)
    then show ?thesis using lt inb by (simp add: unfS unfF)
  next
    case (Inr x)
    show ?thesis
    proof (cases "INT_MAX \<le> i")
      case True
      then show ?thesis using lt inb Inr by (simp add: unfS unfF)
    next
      case False
      have l: "simd_apply_sum_loop n T (Inr av) i accum = simd_apply_sum_loop n T (Inr av) (i + 1) x"
        using lt inb Inr False by (simp add: unfS)
      have r: "simd_reduce_func_loop n ?f (Inr av) i accum =
               simd_reduce_func_loop n ?f (Inr av) (i + 1) x"
        using lt Inr False by (simp add: unfF)
      show ?thesis unfolding l r by (rule Suc.hyps(1) [OF d])
    qed
  qed
qed

lemma simd_apply_sum_loop_fault:
  "simd_apply_sum_loop n T (Inl e) i accum = (if i < n then Inl e else Inr accum)"
  by (simp add: simd_apply_sum_loop.simps [of n T _ i accum])

lemma simd_apply_binop_loop_comm:
  assumes "\<forall>x y. op x y = op y x"
  shows "simd_apply_binop_loop n (Inr av) (Inr bv) op i c =
         simd_apply_binop_loop n (Inr bv) (Inr av) op i c"
proof (induction "n - i" arbitrary: i c)
  case 0
  then show ?case
    by (simp add: simd_apply_binop_loop.simps [of n _ _ op i c])
next
  case (Suc d)
  note unfL = simd_apply_binop_loop.simps [of n "Inr av" "Inr bv" op i c]
  note unfR = simd_apply_binop_loop.simps [of n "Inr bv" "Inr av" op i c]
  from Suc have lt: "i < n" and d: "d = n - (i + 1)" by simp_all
  have sym: "op (v bv ! i) (v av ! i) = op (v av ! i) (v bv ! i)" using assms by simp
  show ?case
  proof (cases "i < length (v av) \<and> i < length (v bv) \<and> i < length c")
    case False
    then show ?thesis using lt by (auto simp: unfL unfR)
  next
    case inb: True
    show ?thesis
    proof (cases "op (v av ! i) (v bv ! i)")
      case (Inl e)
      then show ?thesis using lt inb sym by (simp add: unfL unfR)
    next
      case (Inr x)
      show ?thesis
      proof (cases "INT_MAX \<le> i")
        case True
        then show ?thesis using lt inb Inr sym by (simp add: unfL unfR)
      next
        case False
        have l: "simd_apply_binop_loop n (Inr av) (Inr bv) op i c =
                 simd_apply_binop_loop n (Inr av) (Inr bv) op (i + 1) (c[i := Some x])"
          using lt inb Inr False by (simp add: unfL)
        have r: "simd_apply_binop_loop n (Inr bv) (Inr av) op i c =
                 simd_apply_binop_loop n (Inr bv) (Inr av) op (i + 1) (c[i := Some x])"
          using lt inb Inr False sym by (simp add: unfR)
        show ?thesis unfolding l r by (rule Suc.hyps(1) [OF d])
      qed
    qed
  qed
qed

lemma simd_apply_binop_comm:
  assumes "\<forall>x y. op x y = op y x"
  shows "simd_apply_binop xlen T (Inr a) (Inr b) op = simd_apply_binop xlen T (Inr b) (Inr a) op"
  by (simp add: simd_apply_binop_def simd_apply_binop_loop_comm [OF assms])

lemma c_arith_add_comm: "c_arith (+) s bits x y = c_arith (+) s bits y x"
  by (simp add: c_arith_def add.commute split: prod.splits signedness.splits)

lemma c_arith_mul_comm: "c_arith (*) s bits x y = c_arith (*) s bits y x"
  by (simp add: c_arith_def mult.commute split: prod.splits signedness.splits)

lemma map_result_Inl_D: "map_result f xs = Inl e \<Longrightarrow> \<exists>x\<in>set xs. f x = Inl e"
  by (induction xs) (auto split: sum.splits)

lemma simd_apply_sum_eq:
  assumes "decl_simd_t xlen T a" "VLEN xlen T \<le> INT_MAX"
  shows "simd_apply_sum xlen T (Inr a) =
           fold_result (\<lambda>acc i. op_add T acc (v a ! i)) (lit_zero T) [0..<VLEN xlen T]"
  using assms
  by (simp add: simd_apply_sum_def decl_simd_t_def simd_apply_sum_loop_func simd_reduce_func_loop_eq)

lemmas int32_defs = decl_simd_t_def VLEN_def SIZE_MOD_def INT_MAX_def c_integer_def c_arith_def
  c_div_def c_quot_def c_promote_def c_lo_def c_hi_def c_convert_def

lemma All_less_4: "(\<forall>i<4::nat. P i) \<longleftrightarrow> P 0 \<and> P 1 \<and> P 2 \<and> P 3"
proof -
  have "\<And>i::nat. i < 4 \<longleftrightarrow> i = 0 \<or> i = 1 \<or> i = 2 \<or> i = 3" by auto
  then show ?thesis by auto
qed

lemma simd_apply_binop_loop_any_init:
  assumes "decl_simd_t xlen T a" "decl_simd_t xlen T b" "VLEN xlen T \<le> INT_MAX"
    "length cinit = VLEN xlen T"
  shows "(case simd_apply_binop_loop (VLEN xlen T) (Inr a) (Inr b) op 0 cinit of
            Inl e \<Rightarrow> Inl e
          | Inr c \<Rightarrow> value_of c) = simd_apply_binop xlen T (Inr a) (Inr b) op"
proof -
  have "simd_apply_binop_loop (VLEN xlen T) (Inr a) (Inr b) op 0 cinit =
          (case map_result (\<lambda>j. op (v a ! j) (v b ! j)) [0..<VLEN xlen T] of
              Inl e \<Rightarrow> Inl e
            | Inr xs \<Rightarrow> Inr (take 0 cinit @ map Some xs))"
    using assms by (intro simd_apply_binop_loop_eq) (simp_all add: decl_simd_t_def)
  then show ?thesis
    unfolding simd_apply_binop_eq [OF assms(1-3)]
    by (simp add: value_of_map_Some split: sum.splits)
qed

lemma c_convert_in_range:
  assumes "- (2 ^ 31) \<le> r" "r < 2 ^ 31"
  shows "c_convert Signed 32 r = r"
proof -
  have "0 \<le> r + 2 ^ 31" "r + 2 ^ 31 < 2 ^ 32" using assms by simp_all
  then have "(r + 2 ^ 31) mod 2 ^ 32 = r + 2 ^ 31" by simp
  then show ?thesis by (simp add: c_convert_def)
qed

lemma c_quot_nonneg:
  assumes "0 \<le> x" "0 < y"
  shows "c_quot x y = x div y"
proof (cases "x = 0")
  case True
  then show ?thesis by (simp add: c_quot_def)
next
  case False
  then have "0 < x" using assms by simp
  then show ?thesis using assms by (simp add: c_quot_def)
qed

text \<open>
  The theorems below ask that the element count be within the range of the loop counter.
  That holds whenever \<open>XLEN\<close> is a constant of type \<open>int\<close>, as the default 128 is.
\<close>

lemma VLEN_int_range: "xlen \<le> INT_MAX \<Longrightarrow> VLEN xlen T \<le> INT_MAX"
proof -
  have "VLEN xlen T \<le> xlen mod SIZE_MOD" unfolding VLEN_def by (rule div_le_dividend)
  also have "\<dots> \<le> xlen" by simp
  finally show "xlen \<le> INT_MAX \<Longrightarrow> VLEN xlen T \<le> INT_MAX" by simp
qed

section \<open>Width calculator\<close>

text \<open>
  C4: the element count is the register width divided by eight times the scalar size, by
  truncating integer division: exact when the width is a multiple of the scalar's bit
  width, and rounded down, never up and never rejected, when it is not; a width of 100
  with a 4-byte scalar gives 3. The bounds say that neither conversion to \<open>size_t\<close>
  wraps.
\<close>

theorem VLEN_truncating_division:
  assumes "xlen < SIZE_MOD" "0 < size_of T" "8 * size_of T < SIZE_MOD"
  shows "VLEN xlen T = xlen div (8 * size_of T)
     \<and> (8 * size_of T dvd xlen \<longrightarrow> VLEN xlen T * (8 * size_of T) = xlen)
     \<and> VLEN xlen T * (8 * size_of T) \<le> xlen
     \<and> xlen < (VLEN xlen T + 1) * (8 * size_of T)
     \<and> (xlen = 100 \<and> size_of T = 4 \<longrightarrow> VLEN xlen T = 3)"
proof -
  have eq: "VLEN xlen T = xlen div (8 * size_of T)"
    using assms by (simp add: VLEN_def)
  have pos: "0 < 8 * size_of T" using assms by simp
  have lo: "xlen div (8 * size_of T) * (8 * size_of T) \<le> xlen"
    by simp
  have hi: "xlen < (xlen div (8 * size_of T) + 1) * (8 * size_of T)"
    using pos by (metis Suc_eq_plus1 dividend_less_div_times mult.commute mult_Suc)
  show ?thesis using eq lo hi by auto
qed

theorem VLEN_truncating_division_witness:
  "VLEN 100 (c_integer Signed 4) = 3 \<and> VLEN 128 (c_integer Signed 4) * 32 = 128
     \<and> VLEN 100 (c_integer Signed 4) * 32 \<le> 100 \<and> 100 < (VLEN 100 (c_integer Signed 4) + 1) * 32"
  using VLEN_truncating_division [of 100 "c_integer Signed 4"]
    VLEN_truncating_division [of 128 "c_integer Signed 4"]
  by (simp add: SIZE_MOD_def c_integer_def)

section \<open>Built-in elementwise operations\<close>

text \<open>
  C1: for two vectors \<open>a\<close> and \<open>b\<close> of the generated type, each built-in operation
  returns a vector \<open>c\<close> exactly when \<open>c\<close> is of the generated type and, at every index
  below the element count, \<open>c[i]\<close> is the scalar operation applied to \<open>a[i]\<close> and
  \<open>b[i]\<close>: addition, subtraction, multiplication and division alike. The scalar
  operation is the type's own, its result converted to the type by the assignment.
\<close>

theorem simd_apply_elementwise:
  assumes "decl_simd_t xlen T a" "decl_simd_t xlen T b" "VLEN xlen T \<le> INT_MAX"
  shows "(simd_apply_add xlen T (Inr a) (Inr b) = Inr c \<longleftrightarrow>
            decl_simd_t xlen T c \<and> (\<forall>i<VLEN xlen T. op_add T (v a ! i) (v b ! i) = Inr (v c ! i)))
       \<and> (simd_apply_sub xlen T (Inr a) (Inr b) = Inr c \<longleftrightarrow>
            decl_simd_t xlen T c \<and> (\<forall>i<VLEN xlen T. op_sub T (v a ! i) (v b ! i) = Inr (v c ! i)))
       \<and> (simd_apply_mul xlen T (Inr a) (Inr b) = Inr c \<longleftrightarrow>
            decl_simd_t xlen T c \<and> (\<forall>i<VLEN xlen T. op_mul T (v a ! i) (v b ! i) = Inr (v c ! i)))
       \<and> (simd_apply_div xlen T (Inr a) (Inr b) = Inr c \<longleftrightarrow>
            decl_simd_t xlen T c \<and> (\<forall>i<VLEN xlen T. op_div T (v a ! i) (v b ! i) = Inr (v c ! i)))"
  unfolding simd_apply_add_def simd_apply_sub_def simd_apply_mul_def simd_apply_div_def
  by (intro conjI simd_apply_binop_Inr_iff assms)

theorem simd_apply_elementwise_witness:
  "simd_apply_add 128 (c_integer Signed 4) (Inr \<lparr>v = [10, 20, 30, 40]\<rparr>) (Inr \<lparr>v = [1, 2, 3, 4]\<rparr>)
     = Inr \<lparr>v = [11, 22, 33, 44]\<rparr>
   \<and> simd_apply_sub 128 (c_integer Signed 4) (Inr \<lparr>v = [10, 20, 30, 40]\<rparr>) (Inr \<lparr>v = [1, 2, 3, 4]\<rparr>)
     = Inr \<lparr>v = [9, 18, 27, 36]\<rparr>
   \<and> simd_apply_mul 128 (c_integer Signed 4) (Inr \<lparr>v = [10, 20, 30, 40]\<rparr>) (Inr \<lparr>v = [1, 2, 3, 4]\<rparr>)
     = Inr \<lparr>v = [10, 40, 90, 160]\<rparr>
   \<and> simd_apply_div 128 (c_integer Signed 4) (Inr \<lparr>v = [10, 20, 30, 40]\<rparr>) (Inr \<lparr>v = [1, 2, 3, 4]\<rparr>)
     = Inr \<lparr>v = [10, 10, 10, 10]\<rparr>"
proof -
  let ?T = "c_integer Signed 4"
  let ?a = "\<lparr>v = [10, 20, 30, 40 :: int]\<rparr>"
  let ?b = "\<lparr>v = [1, 2, 3, 4 :: int]\<rparr>"
  have n: "VLEN 128 ?T = 4" by (simp add: int32_defs)
  have a: "decl_simd_t 128 ?T ?a" and b: "decl_simd_t 128 ?T ?b" and m: "VLEN 128 ?T \<le> INT_MAX"
    by (simp_all add: int32_defs)
  show ?thesis
    using simd_apply_elementwise [OF a b m, of "\<lparr>v = [11, 22, 33, 44]\<rparr>"]
      simd_apply_elementwise [OF a b m, of "\<lparr>v = [9, 18, 27, 36]\<rparr>"]
      simd_apply_elementwise [OF a b m, of "\<lparr>v = [10, 40, 90, 160]\<rparr>"]
      simd_apply_elementwise [OF a b m, of "\<lparr>v = [10, 10, 10, 10]\<rparr>"]
    unfolding n All_less_4
    by (simp add: int32_defs)
qed

section \<open>Reductions and the dot product\<close>

text \<open>
  C3: the reduction by a function is the left-to-right fold of that function over the
  indices \<open>0, 1, \<dots>, VLEN(T) - 1\<close> in ascending order, from the zero accumulator, the
  function receiving the accumulator, the index and the vectors; and the sum of a vector is
  that reduction with the step \<open>accum + a[i]\<close>.
\<close>

theorem simd_reduce_left_fold:
  assumes "VLEN xlen T \<le> INT_MAX"
  shows "simd_reduce_func xlen T func (Inr vs) =
           fold_result (\<lambda>acc i. func acc i vs) (lit_zero T) [0..<VLEN xlen T]
       \<and> (decl_simd_t xlen T a \<longrightarrow>
            simd_apply_sum xlen T (Inr a) =
              fold_result (\<lambda>acc i. op_add T acc (v a ! i)) (lit_zero T) [0..<VLEN xlen T]
          \<and> simd_apply_sum xlen T (Inr a) =
              simd_reduce_func xlen T (\<lambda>acc i x. op_add T acc (v x ! i)) (Inr a))"
proof -
  have f: "simd_reduce_func xlen T func (Inr vs) =
           fold_result (\<lambda>acc i. func acc i vs) (lit_zero T) [0..<VLEN xlen T]"
    by (simp add: simd_reduce_func_def simd_reduce_func_loop_eq [OF assms])
  have s: "simd_apply_sum xlen T (Inr a) =
              simd_reduce_func xlen T (\<lambda>acc i x. op_add T acc (v x ! i)) (Inr a)"
    if "decl_simd_t xlen T a"
    using that
    by (simp add: simd_apply_sum_def simd_reduce_func_def decl_simd_t_def simd_apply_sum_loop_func)
  show ?thesis using f s simd_apply_sum_eq [OF _ assms, of a] by simp
qed

theorem simd_reduce_left_fold_witness:
  "simd_reduce_func 128 (c_integer Signed 4) (\<lambda>acc i x. Inr (10 * acc + v x ! i))
       (Inr \<lparr>v = [1, 2, 3, 4]\<rparr>) = Inr 1234
   \<and> simd_apply_sum 128 (c_integer Signed 4) (Inr \<lparr>v = [1, 2, 3, 4]\<rparr>) = Inr 10"
proof -
  let ?T = "c_integer Signed 4"
  have a: "decl_simd_t 128 ?T \<lparr>v = [1, 2, 3, 4]\<rparr>" and m: "VLEN 128 ?T \<le> INT_MAX"
    by (simp_all add: int32_defs)
  have n: "VLEN 128 ?T = 4" by (simp add: int32_defs)
  have u: "[0..<4] = [0, 1, 2, 3]" by (simp add: upt_rec)
  show ?thesis
    using simd_reduce_left_fold [OF m, of "\<lambda>acc i x. Inr (10 * acc + v x ! i)" "\<lparr>v = [1, 2, 3, 4]\<rparr>" "\<lparr>v = [1, 2, 3, 4]\<rparr>"] a
    unfolding n u
    by (simp add: int32_defs)
qed

text \<open>
  C2: the dot product of two vectors equals the sum of their elementwise product, the
  product taken as a value first; and both equal the specification's sum of products: all
  products, then one left-to-right sum from zero over the ascending indices.
\<close>

theorem simd_apply_dot_sum_of_products:
  assumes "decl_simd_t xlen T a" "decl_simd_t xlen T b" "VLEN xlen T \<le> INT_MAX"
  shows "simd_apply_dot xlen T (Inr a) (Inr b) =
           (case simd_apply_mul xlen T (Inr a) (Inr b) of
              Inl e \<Rightarrow> Inl e
            | Inr p \<Rightarrow> simd_apply_sum xlen T (Inr p))
       \<and> simd_apply_dot xlen T (Inr a) (Inr b) = sum_of_products xlen T a b"
proof -
  let ?n = "VLEN xlen T"
  let ?g = "\<lambda>i. op_mul T (v a ! i) (v b ! i)"
  have mul: "simd_apply_mul xlen T (Inr a) (Inr b) =
               (case map_result ?g [0..<?n] of Inl e \<Rightarrow> Inl e | Inr xs \<Rightarrow> Inr \<lparr>v = xs\<rparr>)"
    unfolding simd_apply_mul_def by (rule simd_apply_binop_eq [OF assms])
  show ?thesis
  proof (cases "map_result ?g [0..<?n]")
    case (Inl e)
    have pos: "0 < ?n"
    proof (rule ccontr)
      assume "\<not> 0 < ?n"
      then have "map_result ?g [0..<?n] = Inr []" by simp
      with Inl show False by simp
    qed
    have m: "simd_apply_mul xlen T (Inr a) (Inr b) = Inl e" using mul Inl by simp
    have "simd_apply_dot xlen T (Inr a) (Inr b) = Inl e"
      using pos by (simp add: simd_apply_dot_def m simd_apply_sum_def simd_apply_sum_loop_fault)
    then show ?thesis using m Inl by (simp add: sum_of_products_def)
  next
    case (Inr ps)
    then have len: "length ps = ?n" by (simp add: map_result_Inr_iff)
    have m: "simd_apply_mul xlen T (Inr a) (Inr b) = Inr \<lparr>v = ps\<rparr>" using mul Inr by simp
    have p: "decl_simd_t xlen T \<lparr>v = ps\<rparr>" using len by (simp add: decl_simd_t_def)
    have "simd_apply_sum xlen T (Inr \<lparr>v = ps\<rparr>) =
            fold_result (\<lambda>acc i. op_add T acc (ps ! i)) (lit_zero T) [0..<length ps]"
      using simd_apply_sum_eq [OF p assms(3)] len by simp
    also have "\<dots> = fold_result (op_add T) (lit_zero T) ps"
      by (rule fold_result_nth)
    finally have s: "simd_apply_sum xlen T (Inr \<lparr>v = ps\<rparr>) = fold_result (op_add T) (lit_zero T) ps" .
    show ?thesis using m s Inr by (simp add: simd_apply_dot_def sum_of_products_def)
  qed
qed

theorem simd_apply_dot_sum_of_products_witness:
  "simd_apply_dot 128 (c_integer Signed 4) (Inr \<lparr>v = [1, 2, 3, 4]\<rparr>) (Inr \<lparr>v = [10, 20, 30, 40]\<rparr>)
     = Inr 300"
proof -
  let ?T = "c_integer Signed 4"
  have a: "decl_simd_t 128 ?T \<lparr>v = [1, 2, 3, 4]\<rparr>" and b: "decl_simd_t 128 ?T \<lparr>v = [10, 20, 30, 40]\<rparr>"
    and m: "VLEN 128 ?T \<le> INT_MAX"
    by (simp_all add: int32_defs)
  have n: "VLEN 128 ?T = 4" by (simp add: int32_defs)
  have u: "[0..<4] = [0, 1, 2, 3]" by (simp add: upt_rec)
  show ?thesis
    using simd_apply_dot_sum_of_products [OF a b m, THEN conjunct2]
    unfolding sum_of_products_def n u
    by (simp add: int32_defs)
qed

text \<open>
  C6: when the inline expression and the named function compute the same value from the
  accumulator, the index and the vectors, at every index below the element count, the
  reduction by expression and the reduction by function return the same result, faults
  included.
\<close>

theorem simd_reduce_expr_matches_func:
  assumes "\<forall>acc i. i < VLEN xlen T \<longrightarrow> expr acc i = func acc i vs"
  shows "simd_reduce_expr xlen T expr args = simd_reduce_func xlen T func (Inr vs)"
  unfolding simd_reduce_expr_def simd_reduce_func_def
  using assms by (rule simd_reduce_expr_loop_func)

theorem simd_reduce_expr_matches_func_witness:
  "simd_reduce_expr 128 (c_integer Signed 4)
     (\<lambda>accum i. case op_mul (c_integer Signed 4) ([1, 2, 3, 4] ! i) ([10, 20, 30, 40] ! i) of
                   Inl e \<Rightarrow> Inl e | Inr p \<Rightarrow> op_add (c_integer Signed 4) accum p)
     (Inr (\<lparr>v = [1, 2, 3, 4]\<rparr>, \<lparr>v = [10, 20, 30, 40]\<rparr>))
   = simd_reduce_func 128 (c_integer Signed 4)
     (\<lambda>accum idx (a, b). case op_mul (c_integer Signed 4) (v a ! idx) (v b ! idx) of
                   Inl e \<Rightarrow> Inl e | Inr p \<Rightarrow> op_add (c_integer Signed 4) accum p)
     (Inr (\<lparr>v = [1, 2, 3, 4]\<rparr>, \<lparr>v = [10, 20, 30, 40]\<rparr>))"
  by (rule simd_reduce_expr_matches_func) simp

text \<open>
  C9: a register width below the scalar's bit width gives the element count zero; and with
  the element count zero, each of the three reductions returns the zero accumulator,
  whatever the combining function, the expression or the argument would do if evaluated:
  the loop body never runs.
\<close>

theorem simd_reduce_zero_count:
  "(xlen < SIZE_MOD \<and> 8 * size_of T < SIZE_MOD \<and> xlen < 8 * size_of T \<longrightarrow> VLEN xlen T = 0)
   \<and> (VLEN xlen T = 0 \<longrightarrow>
        simd_reduce_func xlen T func args = Inr (lit_zero T)
      \<and> simd_reduce_expr xlen T expr args' = Inr (lit_zero T)
      \<and> simd_apply_sum xlen T a = Inr (lit_zero T))"
proof -
  have z: "xlen < SIZE_MOD \<and> 8 * size_of T < SIZE_MOD \<and> xlen < 8 * size_of T \<longrightarrow> VLEN xlen T = 0"
    by (simp add: VLEN_def)
  have r: "simd_reduce_func xlen T func args = Inr (lit_zero T)
      \<and> simd_reduce_expr xlen T expr args' = Inr (lit_zero T)
      \<and> simd_apply_sum xlen T a = Inr (lit_zero T)" if "VLEN xlen T = 0"
    using that
    by (simp add: simd_reduce_func_def simd_reduce_expr_def simd_apply_sum_def
        simd_reduce_func_loop.simps [of 0 func args 0]
        simd_reduce_expr_loop.simps [of 0 expr 0]
        simd_apply_sum_loop.simps [of 0 T a 0])
  show ?thesis using z r by blast
qed

theorem simd_reduce_zero_count_witness:
  "VLEN 16 (c_integer Signed 4) = 0
   \<and> simd_reduce_func 16 (c_integer Signed 4) (\<lambda>accum i x. Inl DivByZero)
        (Inl OutOfBounds :: int simd_t result) = Inr 0
   \<and> simd_reduce_expr 16 (c_integer Signed 4) (\<lambda>accum i. Inl DivByZero)
        (Inl OutOfBounds :: int simd_t result) = Inr 0
   \<and> simd_apply_sum 16 (c_integer Signed 4) (Inl OutOfBounds) = Inr 0"
proof -
  let ?T = "c_integer Signed 4"
  have small: "(16::nat) < SIZE_MOD \<and> 8 * size_of ?T < SIZE_MOD \<and> 16 < 8 * size_of ?T"
    by (simp add: SIZE_MOD_def c_integer_def)
  have zero: "lit_zero ?T = 0" by (simp add: c_integer_def)
  show ?thesis
    using simd_reduce_zero_count [of 16 ?T "\<lambda>accum i x. Inl DivByZero"
        "Inl OutOfBounds :: int simd_t result" "\<lambda>accum i. Inl DivByZero"
        "Inl OutOfBounds :: int simd_t result" "Inl OutOfBounds"] small
    unfolding zero by blast
qed

section \<open>Declared operations against the built-in generator\<close>

text \<open>
  C5: calling a function declared for an operator returns what the built-in generator
  returns for the same operator and operands, for any operator and so for each of
  \<open>+\<close>, \<open>-\<close>, \<open>*\<close> and \<open>/\<close>; and on two vectors of the generated type the declared
  function returns \<open>c\<close> exactly when \<open>c\<close> is of that type and \<open>c[i]\<close> is the operator
  applied to \<open>a[i]\<close> and \<open>b[i]\<close> at every index below the element count.
\<close>

theorem decl_simd_bin_op_matches_macro:
  "simd_bin_op (decl_simd_bin_op xlen T op) (Inr a) (Inr b) = simd_apply_binop xlen T (Inr a) (Inr b) op
   \<and> simd_bin_op (decl_simd_bin_op xlen T (op_add T)) (Inr a) (Inr b) = simd_apply_add xlen T (Inr a) (Inr b)
   \<and> simd_bin_op (decl_simd_bin_op xlen T (op_sub T)) (Inr a) (Inr b) = simd_apply_sub xlen T (Inr a) (Inr b)
   \<and> simd_bin_op (decl_simd_bin_op xlen T (op_mul T)) (Inr a) (Inr b) = simd_apply_mul xlen T (Inr a) (Inr b)
   \<and> simd_bin_op (decl_simd_bin_op xlen T (op_div T)) (Inr a) (Inr b) = simd_apply_div xlen T (Inr a) (Inr b)
   \<and> (decl_simd_t xlen T a \<and> decl_simd_t xlen T b \<and> VLEN xlen T \<le> INT_MAX \<longrightarrow>
        (decl_simd_bin_op xlen T op a b = Inr c \<longleftrightarrow>
           decl_simd_t xlen T c \<and> (\<forall>i<VLEN xlen T. op (v a ! i) (v b ! i) = Inr (v c ! i))))"
proof -
  have call: "decl_simd_bin_op xlen T op a b = simd_bin_op (decl_simd_bin_op xlen T op) (Inr a) (Inr b)"
    by (simp add: simd_bin_op_def)
  have elt: "decl_simd_bin_op xlen T op a b = Inr c \<longleftrightarrow>
           decl_simd_t xlen T c \<and> (\<forall>i<VLEN xlen T. op (v a ! i) (v b ! i) = Inr (v c ! i))"
    if "decl_simd_t xlen T a" "decl_simd_t xlen T b" "VLEN xlen T \<le> INT_MAX"
    unfolding call simd_bin_op_decl_eq by (rule simd_apply_binop_Inr_iff [OF that])
  show ?thesis
    using elt
    by (simp add: simd_bin_op_decl_eq simd_apply_add_def simd_apply_sub_def
        simd_apply_mul_def simd_apply_div_def)
qed

theorem decl_simd_bin_op_matches_macro_witness:
  "decl_simd_bin_op 128 (c_integer Signed 4) (op_add (c_integer Signed 4))
     \<lparr>v = [1, 2, 3, 4]\<rparr> \<lparr>v = [10, 20, 30, 40]\<rparr> = Inr \<lparr>v = [11, 22, 33, 44]\<rparr>"
proof -
  let ?T = "c_integer Signed 4"
  have n: "VLEN 128 ?T = 4" by (simp add: int32_defs)
  have h: "decl_simd_t 128 ?T \<lparr>v = [1, 2, 3, 4]\<rparr> \<and> decl_simd_t 128 ?T \<lparr>v = [10, 20, 30, 40]\<rparr>
      \<and> VLEN 128 ?T \<le> INT_MAX"
    by (simp add: int32_defs)
  show ?thesis
    using decl_simd_bin_op_matches_macro [of 128 ?T "op_add ?T" "\<lparr>v = [1, 2, 3, 4]\<rparr>"
        "\<lparr>v = [10, 20, 30, 40]\<rparr>" "\<lparr>v = [11, 22, 33, 44]\<rparr>"] h
    unfolding n All_less_4
    by (simp add: int32_defs)
qed

section \<open>Integer vectors\<close>

text \<open>
  C10: for every C integer type, of either signedness and any size, the built-in
  elementwise addition and multiplication give the same result with the operands swapped,
  the same vector or the same fault.
\<close>

theorem c_integer_add_mul_commute:
  "simd_apply_add xlen (c_integer s bytes) (Inr a) (Inr b) =
     simd_apply_add xlen (c_integer s bytes) (Inr b) (Inr a)
   \<and> simd_apply_mul xlen (c_integer s bytes) (Inr a) (Inr b) =
     simd_apply_mul xlen (c_integer s bytes) (Inr b) (Inr a)"
proof -
  have add: "\<forall>x y. op_add (c_integer s bytes) x y = op_add (c_integer s bytes) y x"
    using c_arith_add_comm by (simp add: c_integer_def)
  have mul: "\<forall>x y. op_mul (c_integer s bytes) x y = op_mul (c_integer s bytes) y x"
    using c_arith_mul_comm by (simp add: c_integer_def)
  show ?thesis
    unfolding simd_apply_add_def simd_apply_mul_def
    using simd_apply_binop_comm [OF add] simd_apply_binop_comm [OF mul] by blast
qed

theorem c_integer_add_mul_commute_witness:
  "simd_apply_add 128 (c_integer Unsigned 2) (Inr \<lparr>v = [65535, 2, 3, 4, 5, 6, 7, 8]\<rparr>)
       (Inr \<lparr>v = [1, 1, 1, 1, 1, 1, 1, 1]\<rparr>)
     = simd_apply_add 128 (c_integer Unsigned 2) (Inr \<lparr>v = [1, 1, 1, 1, 1, 1, 1, 1]\<rparr>)
       (Inr \<lparr>v = [65535, 2, 3, 4, 5, 6, 7, 8]\<rparr>)
   \<and> simd_apply_mul 128 (c_integer Signed 4) (Inr \<lparr>v = [65536, 2, 3, 4]\<rparr>)
       (Inr \<lparr>v = [32768, 1, 1, 1]\<rparr>)
     = simd_apply_mul 128 (c_integer Signed 4) (Inr \<lparr>v = [32768, 1, 1, 1]\<rparr>)
       (Inr \<lparr>v = [65536, 2, 3, 4]\<rparr>)"
  using c_integer_add_mul_commute [of 128 Unsigned 2 "\<lparr>v = [65535, 2, 3, 4, 5, 6, 7, 8]\<rparr>"
      "\<lparr>v = [1, 1, 1, 1, 1, 1, 1, 1]\<rparr>"]
    c_integer_add_mul_commute [of 128 Signed 4 "\<lparr>v = [65536, 2, 3, 4]\<rparr>" "\<lparr>v = [32768, 1, 1, 1]\<rparr>"]
  by blast

section \<open>Division\<close>

text \<open>
  C7: the built-in division applies the scalar type's own division at each index and adds
  no guard. On vectors of the generated type, a fault of the scalar division at the first
  faulting index is the outcome of the whole operation, and where the scalar division
  yields a value at every index, as a floating-point division does, the result is the
  vector of those values. For the C integer types a zero divisor is the fault
  \<open>DivByZero\<close>, and 32-bit integer division truncates: it is the integer quotient on
  non-negative operands, \<open>-7 / 2\<close> is \<open>-3\<close>, and at width 128 the vector
  \<open>[5,5,5,5]\<close> divided by \<open>[2,2,2,2]\<close> is \<open>[2,2,2,2]\<close>.
\<close>

theorem simd_apply_div_unguarded:
  "(decl_simd_t xlen T a \<and> decl_simd_t xlen T b \<and> VLEN xlen T \<le> INT_MAX \<longrightarrow>
      (\<forall>k<VLEN xlen T. \<forall>e.
          op_div T (v a ! k) (v b ! k) = Inl e
            \<and> (\<forall>j<k. \<exists>y. op_div T (v a ! j) (v b ! j) = Inr y)
          \<longrightarrow> simd_apply_div xlen T (Inr a) (Inr b) = Inl e)
    \<and> ((\<forall>i<VLEN xlen T. \<exists>y. op_div T (v a ! i) (v b ! i) = Inr y) \<longrightarrow>
          (\<exists>c. simd_apply_div xlen T (Inr a) (Inr b) = Inr c
             \<and> (\<forall>i<VLEN xlen T. op_div T (v a ! i) (v b ! i) = Inr (v c ! i)))))
   \<and> op_div (c_integer s bytes) x 0 = Inl DivByZero
   \<and> (0 \<le> x \<and> x < 2 ^ 31 \<and> 0 < y \<longrightarrow> op_div (c_integer Signed 4) x y = Inr (x div y))
   \<and> op_div (c_integer Signed 4) (- 7) 2 = Inr (- 3)
   \<and> simd_apply_div 128 (c_integer Signed 4) (Inr \<lparr>v = [5, 5, 5, 5]\<rparr>) (Inr \<lparr>v = [2, 2, 2, 2]\<rparr>)
       = Inr \<lparr>v = [2, 2, 2, 2]\<rparr>"
proof -
  let ?n = "VLEN xlen T"
  let ?g = "\<lambda>i. op_div T (v a ! i) (v b ! i)"
  have fault: "simd_apply_div xlen T (Inr a) (Inr b) = Inl e"
    if wt: "decl_simd_t xlen T a" "decl_simd_t xlen T b" "?n \<le> INT_MAX"
      and k: "k < ?n" "?g k = Inl e" "\<forall>j<k. \<exists>y. ?g j = Inr y" for k e
  proof -
    have "map_result ?g [0..<?n] = Inl e"
      using k by (intro map_result_first_fault [of k]) simp_all
    then show ?thesis
      unfolding simd_apply_div_def simd_apply_binop_eq [OF wt] by simp
  qed
  have total: "\<exists>c. simd_apply_div xlen T (Inr a) (Inr b) = Inr c \<and> (\<forall>i<?n. ?g i = Inr (v c ! i))"
    if wt: "decl_simd_t xlen T a" "decl_simd_t xlen T b" "?n \<le> INT_MAX"
      and ok: "\<forall>i<?n. \<exists>y. ?g i = Inr y"
  proof -
    from ok obtain r where r: "\<forall>i<?n. ?g i = Inr (r i)" by metis
    let ?c = "\<lparr>v = map r [0..<?n]\<rparr>"
    have "decl_simd_t xlen T ?c \<and> (\<forall>i<?n. ?g i = Inr (v ?c ! i))"
      using r by (simp add: decl_simd_t_def)
    then have "simd_apply_div xlen T (Inr a) (Inr b) = Inr ?c"
      unfolding simd_apply_div_def simd_apply_binop_Inr_iff [OF wt] .
    then show ?thesis using r by (intro exI [of _ ?c]) simp
  qed
  have zero: "op_div (c_integer s bytes) x 0 = Inl DivByZero"
    by (simp add: c_integer_def c_div_def)
  have nonneg: "op_div (c_integer Signed 4) x y = Inr (x div y)" if "0 \<le> x" "x < 2 ^ 31" "0 < y"
  proof -
    have "0 \<le> x div y" using that by (simp add: pos_imp_zdiv_nonneg_iff)
    moreover have "x div y \<le> x"
    proof (cases "x = 0")
      case True
      then show ?thesis by simp
    next
      case False
      then have "0 < x" using that by simp
      then show ?thesis by (rule int_div_le_self)
    qed
    ultimately have "c_convert Signed 32 (x div y) = x div y"
      using that by (intro c_convert_in_range) simp_all
    then show ?thesis
      using that by (simp add: c_integer_def c_div_def c_promote_def c_lo_def c_quot_nonneg)
  qed
  have neg: "op_div (c_integer Signed 4) (- 7) 2 = Inr (- 3)"
    by (simp add: int32_defs)
  have ex: "simd_apply_div 128 (c_integer Signed 4) (Inr \<lparr>v = [5, 5, 5, 5]\<rparr>) (Inr \<lparr>v = [2, 2, 2, 2]\<rparr>)
       = Inr \<lparr>v = [2, 2, 2, 2]\<rparr>"
  proof -
    let ?T = "c_integer Signed 4"
    have n: "VLEN 128 ?T = 4" by (simp add: int32_defs)
    have wt: "decl_simd_t 128 ?T \<lparr>v = [5, 5, 5, 5]\<rparr>" "decl_simd_t 128 ?T \<lparr>v = [2, 2, 2, 2]\<rparr>"
      "VLEN 128 ?T \<le> INT_MAX"
      by (simp_all add: int32_defs)
    show ?thesis
      unfolding simd_apply_div_def simd_apply_binop_Inr_iff [OF wt] n All_less_4
      by (simp add: int32_defs)
  qed
  show ?thesis
    using fault total zero nonneg neg ex by blast
qed

theorem simd_apply_div_unguarded_witness:
  "simd_apply_div 128 (c_integer Signed 4) (Inr \<lparr>v = [5, 5, 5, 5]\<rparr>) (Inr \<lparr>v = [2, 0, 2, 2]\<rparr>)
     = Inl DivByZero
   \<and> op_div (c_integer Signed 4) 5 2 = Inr 2"
proof -
  let ?T = "c_integer Signed 4"
  let ?a = "\<lparr>v = [5, 5, 5, 5 :: int]\<rparr>"
  let ?b = "\<lparr>v = [2, 0, 2, 2 :: int]\<rparr>"
  have n: "VLEN 128 ?T = 4" by (simp add: int32_defs)
  have wt: "decl_simd_t 128 ?T ?a \<and> decl_simd_t 128 ?T ?b \<and> VLEN 128 ?T \<le> INT_MAX"
    by (simp add: int32_defs)
  note inst = simd_apply_div_unguarded [where xlen = 128 and T = ?T and a = ?a and b = ?b
      and x = 5 and y = 2 and s = Signed and bytes = 4]
  from inst wt have "\<forall>k<VLEN 128 ?T. \<forall>e.
          op_div ?T (v ?a ! k) (v ?b ! k) = Inl e
            \<and> (\<forall>j<k. \<exists>y. op_div ?T (v ?a ! j) (v ?b ! j) = Inr y)
          \<longrightarrow> simd_apply_div 128 ?T (Inr ?a) (Inr ?b) = Inl e"
    by blast
  then have first_fault: "simd_apply_div 128 ?T (Inr ?a) (Inr ?b) = Inl e"
    if "k < 4" "op_div ?T (v ?a ! k) (v ?b ! k) = Inl e"
      "\<forall>j<k. \<exists>y. op_div ?T (v ?a ! j) (v ?b ! j) = Inr y" for k e
    using that unfolding n by blast
  have f: "simd_apply_div 128 ?T (Inr ?a) (Inr ?b) = Inl DivByZero"
  proof (rule first_fault [of 1])
    show "(1::nat) < 4" by simp
    show "op_div ?T (v ?a ! 1) (v ?b ! 1) = Inl DivByZero" by (simp add: int32_defs)
    show "\<forall>j<1. \<exists>y. op_div ?T (v ?a ! j) (v ?b ! j) = Inr y" by (simp add: int32_defs)
  qed
  have "(0::int) \<le> 5 \<and> (5::int) < 2 ^ 31 \<and> (0::int) < 2" by simp
  with inst have "op_div ?T 5 2 = Inr (5 div 2)" by blast
  then have g: "op_div ?T 5 2 = Inr 2" by simp
  show ?thesis using f g by simp
qed

section \<open>Purity\<close>

text \<open>
  The runs of the macros on the variables in scope, against the loops above: a run changes
  only the local that its body assigns, and its value is the value of the corresponding
  loop at the operands found in the state.
\<close>

lemma simd_apply_binop_exec_loop:
  "simd_apply_binop_exec n op i env =
     (case simd_apply_binop_loop n (Inr (fst (operands env))) (Inr (snd (operands env))) op i
             (var_c env) of
        Inl e \<Rightarrow> Inl e
      | Inr c \<Rightarrow> Inr (env\<lparr>var_c := c\<rparr>))"
proof (induction "n - i" arbitrary: i env)
  case 0
  then show ?case
    by (simp add: simd_apply_binop_exec.simps [of n op i env]
        simd_apply_binop_loop.simps [of n _ _ op i "var_c env"])
next
  case (Suc d)
  let ?a = "fst (operands env)" and ?b = "snd (operands env)"
  note unfE = simd_apply_binop_exec.simps [of n op i env]
  note unfM = simd_apply_binop_loop.simps [of n "Inr ?a" "Inr ?b" op i "var_c env"]
  from Suc have lt: "i < n" and d: "d = n - (i + 1)" by simp_all
  show ?case
  proof (cases "i < length (v ?a) \<and> i < length (v ?b) \<and> i < length (var_c env)")
    case False
    then show ?thesis using lt by (auto simp: unfE unfM)
  next
    case inb: True
    show ?thesis
    proof (cases "op (v ?a ! i) (v ?b ! i)")
      case (Inl e)
      then show ?thesis using lt inb by (simp add: unfE unfM)
    next
      case (Inr x)
      show ?thesis
      proof (cases "INT_MAX \<le> i")
        case True
        then show ?thesis using lt inb Inr by (simp add: unfE unfM)
      next
        case False
        let ?env = "env\<lparr>var_c := (var_c env)[i := Some x]\<rparr>"
        have l: "simd_apply_binop_exec n op i env = simd_apply_binop_exec n op (i + 1) ?env"
          using lt inb Inr False by (simp add: unfE)
        have r: "simd_apply_binop_loop n (Inr ?a) (Inr ?b) op i (var_c env) =
                 simd_apply_binop_loop n (Inr (fst (operands ?env))) (Inr (snd (operands ?env))) op
                   (i + 1) (var_c ?env)"
          using lt inb Inr False by (simp add: unfM)
        show ?thesis
          unfolding l r Suc.hyps(1) [OF d, of ?env] by (simp split: sum.splits)
      qed
    qed
  qed
qed

lemma simd_apply_binop_run_value:
  "yield_c (simd_apply_binop_run xlen T op env) =
     simd_apply_binop xlen T (Inr (fst (operands env))) (Inr (snd (operands env))) op"
  by (simp add: yield_c_def simd_apply_binop_run_def simd_apply_binop_def
      simd_apply_binop_exec_loop split: sum.splits)

lemma simd_apply_binop_run_frame:
  "simd_apply_binop_run xlen T op env = Inr env' \<Longrightarrow>
     operands env' = operands env \<and> var_accum env' = var_accum env"
  by (auto simp: simd_apply_binop_run_def simd_apply_binop_exec_loop split: sum.splits)

lemma simd_apply_sum_exec_loop:
  "simd_apply_sum_exec n T i env =
     (case simd_apply_sum_loop n T (Inr (operands env)) i (var_accum env) of
        Inl e \<Rightarrow> Inl e
      | Inr x \<Rightarrow> Inr (env\<lparr>var_accum := x\<rparr>))"
proof (induction "n - i" arbitrary: i env)
  case 0
  then show ?case
    by (simp add: simd_apply_sum_exec.simps [of n T i env]
        simd_apply_sum_loop.simps [of n T _ i "var_accum env"])
next
  case (Suc d)
  note unfE = simd_apply_sum_exec.simps [of n T i env]
  note unfM = simd_apply_sum_loop.simps [of n T "Inr (operands env)" i "var_accum env"]
  from Suc have lt: "i < n" and d: "d = n - (i + 1)" by simp_all
  show ?case
  proof (cases "i < length (v (operands env))")
    case False
    then show ?thesis using lt by (simp add: unfE unfM)
  next
    case inb: True
    show ?thesis
    proof (cases "op_add T (var_accum env) (v (operands env) ! i)")
      case (Inl e)
      then show ?thesis using lt inb by (simp add: unfE unfM)
    next
      case (Inr x)
      show ?thesis
      proof (cases "INT_MAX \<le> i")
        case True
        then show ?thesis using lt inb Inr by (simp add: unfE unfM)
      next
        case False
        let ?env = "env\<lparr>var_accum := x\<rparr>"
        have l: "simd_apply_sum_exec n T i env = simd_apply_sum_exec n T (i + 1) ?env"
          using lt inb Inr False by (simp add: unfE)
        have r: "simd_apply_sum_loop n T (Inr (operands env)) i (var_accum env) =
                 simd_apply_sum_loop n T (Inr (operands ?env)) (i + 1) (var_accum ?env)"
          using lt inb Inr False by (simp add: unfM)
        show ?thesis
          unfolding l r Suc.hyps(1) [OF d, of ?env] by (simp split: sum.splits)
      qed
    qed
  qed
qed

lemma simd_reduce_func_exec_loop:
  "simd_reduce_func_exec n func i env =
     (case simd_reduce_func_loop n func (Inr (operands env)) i (var_accum env) of
        Inl e \<Rightarrow> Inl e
      | Inr x \<Rightarrow> Inr (env\<lparr>var_accum := x\<rparr>))"
proof (induction "n - i" arbitrary: i env)
  case 0
  then show ?case
    by (simp add: simd_reduce_func_exec.simps [of n func i env]
        simd_reduce_func_loop.simps [of n func _ i "var_accum env"])
next
  case (Suc d)
  note unfE = simd_reduce_func_exec.simps [of n func i env]
  note unfM = simd_reduce_func_loop.simps [of n func "Inr (operands env)" i "var_accum env"]
  from Suc have lt: "i < n" and d: "d = n - (i + 1)" by simp_all
  show ?case
  proof (cases "func (var_accum env) i (operands env)")
    case (Inl e)
    then show ?thesis using lt by (simp add: unfE unfM)
  next
    case (Inr x)
    show ?thesis
    proof (cases "INT_MAX \<le> i")
      case True
      then show ?thesis using lt Inr by (simp add: unfE unfM)
    next
      case False
      let ?env = "env\<lparr>var_accum := x\<rparr>"
      have l: "simd_reduce_func_exec n func i env = simd_reduce_func_exec n func (i + 1) ?env"
        using lt Inr False by (simp add: unfE)
      have r: "simd_reduce_func_loop n func (Inr (operands env)) i (var_accum env) =
               simd_reduce_func_loop n func (Inr (operands ?env)) (i + 1) (var_accum ?env)"
        using lt Inr False by (simp add: unfM)
      show ?thesis
        unfolding l r Suc.hyps(1) [OF d, of ?env] by (simp split: sum.splits)
    qed
  qed
qed

lemma simd_reduce_expr_exec_loop:
  "simd_reduce_expr_exec n expr i env =
     (case simd_reduce_expr_loop n (\<lambda>accum j. expr accum j (operands env)) i (var_accum env) of
        Inl e \<Rightarrow> Inl e
      | Inr x \<Rightarrow> Inr (env\<lparr>var_accum := x\<rparr>))"
proof (induction "n - i" arbitrary: i env)
  case 0
  then show ?case
    by (simp add: simd_reduce_expr_exec.simps [of n expr i env]
        simd_reduce_expr_loop.simps [of n _ i "var_accum env"])
next
  case (Suc d)
  let ?e = "\<lambda>accum j. expr accum j (operands env)"
  note unfE = simd_reduce_expr_exec.simps [of n expr i env]
  note unfM = simd_reduce_expr_loop.simps [of n ?e i "var_accum env"]
  from Suc have lt: "i < n" and d: "d = n - (i + 1)" by simp_all
  show ?case
  proof (cases "expr (var_accum env) i (operands env)")
    case (Inl e)
    then show ?thesis using lt by (simp add: unfE unfM)
  next
    case (Inr x)
    show ?thesis
    proof (cases "INT_MAX \<le> i")
      case True
      then show ?thesis using lt Inr by (simp add: unfE unfM)
    next
      case False
      let ?env = "env\<lparr>var_accum := x\<rparr>"
      have l: "simd_reduce_expr_exec n expr i env = simd_reduce_expr_exec n expr (i + 1) ?env"
        using lt Inr False by (simp add: unfE)
      have r: "simd_reduce_expr_loop n ?e i (var_accum env) =
               simd_reduce_expr_loop n (\<lambda>accum j. expr accum j (operands ?env)) (i + 1) (var_accum ?env)"
        using lt Inr False by (simp add: unfM)
      show ?thesis
        unfolding l r Suc.hyps(1) [OF d, of ?env] by (simp split: sum.splits)
    qed
  qed
qed

lemma simd_apply_dot_exec_loop:
  "(simd_apply_dot_exec xlen T i env = Inr env' \<longrightarrow> operands env' = operands env)
   \<and> yield_accum (simd_apply_dot_exec xlen T i env) =
       simd_apply_sum_loop (VLEN xlen T) T
         (simd_apply_mul xlen T (Inr (fst (operands env))) (Inr (snd (operands env)))) i
         (var_accum env)"
proof (induction "VLEN xlen T - i" arbitrary: i env)
  case 0
  then show ?case
    by (simp add: yield_accum_def simd_apply_dot_exec.simps [of xlen T i env]
        simd_apply_sum_loop.simps [of "VLEN xlen T" T _ i "var_accum env"])
next
  case (Suc d)
  let ?n = "VLEN xlen T"
  let ?r = "simd_apply_mul xlen T (Inr (fst (operands env))) (Inr (snd (operands env)))"
  note unfE = simd_apply_dot_exec.simps [of xlen T i env]
  note unfM = simd_apply_sum_loop.simps [of ?n T ?r i "var_accum env"]
  from Suc have lt: "i < ?n" and d: "d = ?n - (i + 1)" by simp_all
  have val: "yield_c (simd_apply_binop_run xlen T (op_mul T) env) = ?r"
    by (simp add: simd_apply_binop_run_value simd_apply_mul_def)
  show ?case
  proof (cases "simd_apply_binop_run xlen T (op_mul T) env")
    case (Inl e)
    then have "?r = Inl e" using val by (simp add: yield_c_def)
    then show ?thesis
      using lt Inl by (simp add: unfE simd_apply_sum_loop_fault yield_accum_def)
  next
    case run: (Inr env1)
    then have fr: "operands env1 = operands env" "var_accum env1 = var_accum env"
      using simd_apply_binop_run_frame by blast+
    have v1: "value_of (var_c env1) = ?r" using val run by (simp add: yield_c_def)
    show ?thesis
    proof (cases ?r)
      case (Inl e)
      then show ?thesis
        using lt run v1 by (simp add: unfE simd_apply_sum_loop_fault yield_accum_def)
    next
      case p: (Inr p)
      note unfP = simd_apply_sum_loop.simps [of ?n T "Inr p" i "var_accum env"]
      show ?thesis
      proof (cases "i < length (v p)")
        case False
        then show ?thesis using lt run v1 p by (simp add: unfE unfP yield_accum_def)
      next
        case inb: True
        show ?thesis
        proof (cases "op_add T (var_accum env) (v p ! i)")
          case (Inl e)
          then show ?thesis using lt run v1 p inb fr by (simp add: unfE unfP yield_accum_def)
        next
          case (Inr x)
          show ?thesis
          proof (cases "INT_MAX \<le> i")
            case True
            then show ?thesis using lt run v1 p inb fr Inr by (simp add: unfE unfP yield_accum_def)
          next
            case False
            let ?env = "env1\<lparr>var_accum := x\<rparr>"
            have l: "simd_apply_dot_exec xlen T i env = simd_apply_dot_exec xlen T (i + 1) ?env"
              using lt run v1 p inb fr Inr False by (simp add: unfE)
            have r: "simd_apply_sum_loop ?n T ?r i (var_accum env) =
                     simd_apply_sum_loop ?n T ?r (i + 1) x"
              using lt p inb Inr False by (simp add: unfP)
            have ops: "operands ?env = operands env" using fr by simp
            show ?thesis
              unfolding l r using Suc.hyps(1) [OF d, of ?env] ops by simp
          qed
        qed
      qed
    qed
  qed
qed

lemma yield_c_Inr_D: "yield_c r = Inr x \<Longrightarrow> \<exists>env. r = Inr env"
  by (cases r) (simp_all add: yield_c_def)

lemma yield_accum_Inr_D: "yield_accum r = Inr x \<Longrightarrow> \<exists>env. r = Inr env"
  by (cases r) (simp_all add: yield_accum_def)

lemma simd_apply_dot_run_value:
  "yield_accum (simd_apply_dot_run xlen T env) =
     simd_apply_dot xlen T (Inr (fst (operands env))) (Inr (snd (operands env)))"
  using simd_apply_dot_exec_loop [of xlen T 0 "env\<lparr>var_accum := lit_zero T\<rparr>"]
  by (simp add: simd_apply_dot_run_def simd_apply_dot_def simd_apply_sum_def)

lemma simd_apply_dot_run_frame:
  "simd_apply_dot_run xlen T env = Inr env' \<Longrightarrow> operands env' = operands env"
  using simd_apply_dot_exec_loop [of xlen T 0 "env\<lparr>var_accum := lit_zero T\<rparr>" env']
  by (simp add: simd_apply_dot_run_def)

lemma simd_apply_sum_run_value:
  "yield_accum (simd_apply_sum_run xlen T env) = simd_apply_sum xlen T (Inr (operands env))"
  by (simp add: yield_accum_def simd_apply_sum_run_def simd_apply_sum_def
      simd_apply_sum_exec_loop split: sum.splits)

lemma simd_apply_sum_run_frame:
  "simd_apply_sum_run xlen T env = Inr env' \<Longrightarrow>
     operands env' = operands env \<and> var_c env' = var_c env"
  by (auto simp: simd_apply_sum_run_def simd_apply_sum_exec_loop split: sum.splits)

lemma simd_reduce_func_run_value:
  "yield_accum (simd_reduce_func_run xlen T func env) =
     simd_reduce_func xlen T func (Inr (operands env))"
  by (simp add: yield_accum_def simd_reduce_func_run_def simd_reduce_func_def
      simd_reduce_func_exec_loop split: sum.splits)

lemma simd_reduce_func_run_frame:
  "simd_reduce_func_run xlen T func env = Inr env' \<Longrightarrow>
     operands env' = operands env \<and> var_c env' = var_c env"
  by (auto simp: simd_reduce_func_run_def simd_reduce_func_exec_loop split: sum.splits)

lemma simd_reduce_expr_run_value:
  "yield_accum (simd_reduce_expr_run xlen T expr env) =
     simd_reduce_expr xlen T (\<lambda>accum i. expr accum i (operands env)) args"
  by (simp add: yield_accum_def simd_reduce_expr_run_def simd_reduce_expr_def
      simd_reduce_expr_exec_loop split: sum.splits)

lemma simd_reduce_expr_run_frame:
  "simd_reduce_expr_run xlen T expr env = Inr env' \<Longrightarrow>
     operands env' = operands env \<and> var_c env' = var_c env"
  by (auto simp: simd_reduce_expr_run_def simd_reduce_expr_exec_loop split: sum.splits)

text \<open>
  C8: every elementwise operation, reduction and dot product is a function of its operands
  alone and leaves them as they were. The loop of a declared operation does not change the
  parameters of its frame. A run of a built-in elementwise macro, of the dot product, of
  the sum and of the reductions by function and by expression, from any state of the
  variables in scope, ends with the operand variables unchanged and with only its own local
  written; its value is the value of the operation at the operands, whatever the locals
  held before; and a second run in the state the first one left gives the same value. The
  result of an elementwise operation does not depend on the prior contents of the
  uninitialised local \<open>c\<close>, and no unwritten cell reaches it.
\<close>

theorem simd_operations_pure:
  "(decl_simd_bin_op_loop n op i fr = Inr fr' \<longrightarrow> arg_a fr' = arg_a fr \<and> arg_b fr' = arg_b fr)
   \<and> (decl_simd_t xlen T a \<and> decl_simd_t xlen T b \<and> VLEN xlen T \<le> INT_MAX
        \<and> length cinit = VLEN xlen T \<longrightarrow>
        (case simd_apply_binop_loop (VLEN xlen T) (Inr a) (Inr b) op 0 cinit of
           Inl e \<Rightarrow> Inl e
         | Inr c \<Rightarrow> value_of c) = simd_apply_binop xlen T (Inr a) (Inr b) op
      \<and> (case decl_simd_bin_op_loop (VLEN xlen T) op 0 \<lparr>arg_a = a, arg_b = b, loc_c = cinit\<rparr> of
           Inl e \<Rightarrow> Inl e
         | Inr fr \<Rightarrow> value_of (loc_c fr)) = decl_simd_bin_op xlen T op a b
      \<and> simd_apply_sum xlen T
           (case simd_apply_binop_loop (VLEN xlen T) (Inr a) (Inr b) (op_mul T) 0 cinit of
              Inl e \<Rightarrow> Inl e
            | Inr c \<Rightarrow> value_of c) = simd_apply_dot xlen T (Inr a) (Inr b)
      \<and> ((\<forall>x y. op x y \<noteq> Inl Indeterminate) \<longrightarrow>
            simd_apply_binop xlen T (Inr a) (Inr b) op \<noteq> Inl Indeterminate
          \<and> decl_simd_bin_op xlen T op a b \<noteq> Inl Indeterminate))
   \<and> (simd_apply_binop_run xlen T op benv = Inr benv' \<longrightarrow>
        operands benv' = operands benv \<and> var_accum benv' = var_accum benv
        \<and> yield_c (simd_apply_binop_run xlen T op benv') = yield_c (simd_apply_binop_run xlen T op benv))
   \<and> yield_c (simd_apply_binop_run xlen T op benv) =
        simd_apply_binop xlen T (Inr (fst (operands benv))) (Inr (snd (operands benv))) op
   \<and> (simd_apply_dot_run xlen T denv = Inr denv' \<longrightarrow>
        operands denv' = operands denv
        \<and> yield_accum (simd_apply_dot_run xlen T denv') = yield_accum (simd_apply_dot_run xlen T denv))
   \<and> yield_accum (simd_apply_dot_run xlen T denv) =
        simd_apply_dot xlen T (Inr (fst (operands denv))) (Inr (snd (operands denv)))
   \<and> (simd_apply_sum_run xlen T senv = Inr senv' \<longrightarrow>
        operands senv' = operands senv \<and> var_c senv' = var_c senv
        \<and> yield_accum (simd_apply_sum_run xlen T senv') = yield_accum (simd_apply_sum_run xlen T senv))
   \<and> yield_accum (simd_apply_sum_run xlen T senv) = simd_apply_sum xlen T (Inr (operands senv))
   \<and> (simd_reduce_func_run xlen T func fenv = Inr fenv' \<longrightarrow>
        operands fenv' = operands fenv \<and> var_c fenv' = var_c fenv
        \<and> yield_accum (simd_reduce_func_run xlen T func fenv') =
            yield_accum (simd_reduce_func_run xlen T func fenv))
   \<and> yield_accum (simd_reduce_func_run xlen T func fenv) =
        simd_reduce_func xlen T func (Inr (operands fenv))
   \<and> (simd_reduce_expr_run xlen T expr eenv = Inr eenv' \<longrightarrow>
        operands eenv' = operands eenv \<and> var_c eenv' = var_c eenv
        \<and> yield_accum (simd_reduce_expr_run xlen T expr eenv') =
            yield_accum (simd_reduce_expr_run xlen T expr eenv))
   \<and> yield_accum (simd_reduce_expr_run xlen T expr eenv) =
        simd_reduce_expr xlen T (\<lambda>accum i. expr accum i (operands eenv)) args"
proof -
  let ?n = "VLEN xlen T"
  have frame: "decl_simd_bin_op_loop n op i fr = Inr fr' \<longrightarrow>
                 arg_a fr' = arg_a fr \<and> arg_b fr' = arg_b fr"
    using decl_simd_bin_op_loop_frame by blast
  have call: "decl_simd_bin_op xlen T op a b = simd_apply_binop xlen T (Inr a) (Inr b) op"
    using simd_bin_op_decl_eq [of xlen T op a b] by (simp add: simd_bin_op_def)
  have rest:
    "(case simd_apply_binop_loop ?n (Inr a) (Inr b) op 0 cinit of
           Inl e \<Rightarrow> Inl e
         | Inr c \<Rightarrow> value_of c) = simd_apply_binop xlen T (Inr a) (Inr b) op
      \<and> (case decl_simd_bin_op_loop ?n op 0 \<lparr>arg_a = a, arg_b = b, loc_c = cinit\<rparr> of
           Inl e \<Rightarrow> Inl e
         | Inr fr \<Rightarrow> value_of (loc_c fr)) = decl_simd_bin_op xlen T op a b
      \<and> simd_apply_sum xlen T
           (case simd_apply_binop_loop ?n (Inr a) (Inr b) (op_mul T) 0 cinit of
              Inl e \<Rightarrow> Inl e
            | Inr c \<Rightarrow> value_of c) = simd_apply_dot xlen T (Inr a) (Inr b)
      \<and> ((\<forall>x y. op x y \<noteq> Inl Indeterminate) \<longrightarrow>
            simd_apply_binop xlen T (Inr a) (Inr b) op \<noteq> Inl Indeterminate
          \<and> decl_simd_bin_op xlen T op a b \<noteq> Inl Indeterminate)"
    if wt: "decl_simd_t xlen T a" "decl_simd_t xlen T b" "?n \<le> INT_MAX" and cinit: "length cinit = ?n"
  proof -
    have macro: "(case simd_apply_binop_loop ?n (Inr a) (Inr b) op' 0 cinit of
           Inl e \<Rightarrow> Inl e
         | Inr c \<Rightarrow> value_of c) = simd_apply_binop xlen T (Inr a) (Inr b) op'" for op'
      by (rule simd_apply_binop_loop_any_init [OF wt cinit])
    have "(case decl_simd_bin_op_loop ?n op 0 \<lparr>arg_a = a, arg_b = b, loc_c = cinit\<rparr> of
           Inl e \<Rightarrow> Inl e
         | Inr fr \<Rightarrow> value_of (loc_c fr)) =
          (case simd_apply_binop_loop ?n (Inr a) (Inr b) op 0 cinit of
           Inl e \<Rightarrow> Inl e
         | Inr c \<Rightarrow> value_of c)"
      by (simp add: decl_simd_bin_op_loop_macro split: sum.splits)
    then have decl: "(case decl_simd_bin_op_loop ?n op 0 \<lparr>arg_a = a, arg_b = b, loc_c = cinit\<rparr> of
           Inl e \<Rightarrow> Inl e
         | Inr fr \<Rightarrow> value_of (loc_c fr)) = decl_simd_bin_op xlen T op a b"
      unfolding macro call .
    have dot: "simd_apply_sum xlen T
           (case simd_apply_binop_loop ?n (Inr a) (Inr b) (op_mul T) 0 cinit of
              Inl e \<Rightarrow> Inl e
            | Inr c \<Rightarrow> value_of c) = simd_apply_dot xlen T (Inr a) (Inr b)"
      unfolding macro by (simp add: simd_apply_dot_def simd_apply_mul_def)
    have det: "simd_apply_binop xlen T (Inr a) (Inr b) op \<noteq> Inl Indeterminate"
      if total: "\<forall>x y. op x y \<noteq> Inl Indeterminate"
    proof
      assume "simd_apply_binop xlen T (Inr a) (Inr b) op = Inl Indeterminate"
      then have "map_result (\<lambda>j. op (v a ! j) (v b ! j)) [0..<?n] = Inl Indeterminate"
        unfolding simd_apply_binop_eq [OF wt] by (simp split: sum.splits)
      then obtain j where "op (v a ! j) (v b ! j) = Inl Indeterminate"
        using map_result_Inl_D by fastforce
      with total show False by simp
    qed
    show ?thesis using macro [of op] decl dot det call by simp
  qed
  have binop: "operands benv' = operands benv \<and> var_accum benv' = var_accum benv
        \<and> yield_c (simd_apply_binop_run xlen T op benv') = yield_c (simd_apply_binop_run xlen T op benv)"
    if "simd_apply_binop_run xlen T op benv = Inr benv'"
    using simd_apply_binop_run_frame [OF that] by (simp add: simd_apply_binop_run_value)
  have dotr: "operands denv' = operands denv
        \<and> yield_accum (simd_apply_dot_run xlen T denv') = yield_accum (simd_apply_dot_run xlen T denv)"
    if "simd_apply_dot_run xlen T denv = Inr denv'"
    using simd_apply_dot_run_frame [OF that] by (simp add: simd_apply_dot_run_value)
  have sum: "operands senv' = operands senv \<and> var_c senv' = var_c senv
        \<and> yield_accum (simd_apply_sum_run xlen T senv') = yield_accum (simd_apply_sum_run xlen T senv)"
    if "simd_apply_sum_run xlen T senv = Inr senv'"
    using simd_apply_sum_run_frame [OF that] by (simp add: simd_apply_sum_run_value)
  have func: "operands fenv' = operands fenv \<and> var_c fenv' = var_c fenv
        \<and> yield_accum (simd_reduce_func_run xlen T func fenv') =
            yield_accum (simd_reduce_func_run xlen T func fenv)"
    if "simd_reduce_func_run xlen T func fenv = Inr fenv'"
    using simd_reduce_func_run_frame [OF that] by (simp add: simd_reduce_func_run_value)
  have expr: "operands eenv' = operands eenv \<and> var_c eenv' = var_c eenv
        \<and> yield_accum (simd_reduce_expr_run xlen T expr eenv') =
            yield_accum (simd_reduce_expr_run xlen T expr eenv)"
    if "simd_reduce_expr_run xlen T expr eenv = Inr eenv'"
    using simd_reduce_expr_run_frame [OF that]
    by (simp add: simd_reduce_expr_run_value [where args = "Inr ()"])
  show ?thesis
    using frame rest binop dotr sum func expr
      simd_apply_binop_run_value [of xlen T op benv] simd_apply_dot_run_value [of xlen T denv]
      simd_apply_sum_run_value [of xlen T senv]
      simd_reduce_func_run_value [of xlen T func fenv]
      simd_reduce_expr_run_value [of xlen T expr eenv args]
    by blast
qed

theorem simd_operations_pure_witness:
  "(\<exists>fr'. decl_simd_bin_op_loop 4 (op_add (c_integer Signed 4)) 0
             \<lparr>arg_a = \<lparr>v = [1, 2, 3, 4]\<rparr>, arg_b = \<lparr>v = [10, 20, 30, 40]\<rparr>,
              loc_c = [Some 7, None, Some 9, None]\<rparr> = Inr fr'
          \<and> loc_c fr' = [Some 11, Some 22, Some 33, Some 44]
          \<and> arg_a fr' = \<lparr>v = [1, 2, 3, 4]\<rparr> \<and> arg_b fr' = \<lparr>v = [10, 20, 30, 40]\<rparr>)
   \<and> (\<exists>env'. simd_apply_binop_run 128 (c_integer Signed 4) (op_add (c_integer Signed 4))
             \<lparr>operands = (\<lparr>v = [1, 2, 3, 4]\<rparr>, \<lparr>v = [10, 20, 30, 40]\<rparr>),
              var_c = [Some 7, None, Some 9, None], var_accum = 99\<rparr> = Inr env'
          \<and> operands env' = (\<lparr>v = [1, 2, 3, 4]\<rparr>, \<lparr>v = [10, 20, 30, 40]\<rparr>)
          \<and> var_accum env' = 99
          \<and> yield_c (simd_apply_binop_run 128 (c_integer Signed 4) (op_add (c_integer Signed 4)) env')
              = Inr \<lparr>v = [11, 22, 33, 44]\<rparr>)
   \<and> (\<exists>env'. simd_apply_dot_run 128 (c_integer Signed 4)
             \<lparr>operands = (\<lparr>v = [1, 2, 3, 4]\<rparr>, \<lparr>v = [10, 20, 30, 40]\<rparr>),
              var_c = [Some 7, None, Some 9, None], var_accum = 99\<rparr> = Inr env'
          \<and> operands env' = (\<lparr>v = [1, 2, 3, 4]\<rparr>, \<lparr>v = [10, 20, 30, 40]\<rparr>)
          \<and> yield_accum (simd_apply_dot_run 128 (c_integer Signed 4) env') = Inr 300)
   \<and> (\<exists>env'. simd_apply_sum_run 128 (c_integer Signed 4)
             \<lparr>operands = \<lparr>v = [1, 2, 3, 4]\<rparr>, var_c = [Some 7], var_accum = 99\<rparr> = Inr env'
          \<and> operands env' = \<lparr>v = [1, 2, 3, 4]\<rparr> \<and> var_c env' = [Some 7]
          \<and> yield_accum (simd_apply_sum_run 128 (c_integer Signed 4) env') = Inr 10)
   \<and> (\<exists>env'. simd_reduce_func_run 128 (c_integer Signed 4)
             (\<lambda>accum idx x. Inr (10 * accum + v x ! idx))
             \<lparr>operands = \<lparr>v = [1, 2, 3, 4]\<rparr>, var_c = [Some 7], var_accum = 99\<rparr> = Inr env'
          \<and> operands env' = \<lparr>v = [1, 2, 3, 4]\<rparr> \<and> var_c env' = [Some 7]
          \<and> yield_accum (simd_reduce_func_run 128 (c_integer Signed 4)
               (\<lambda>accum idx x. Inr (10 * accum + v x ! idx)) env') = Inr 1234)
   \<and> (\<exists>env'. simd_reduce_expr_run 128 (c_integer Signed 4)
             (\<lambda>accum idx x. Inr (10 * accum + v x ! idx))
             \<lparr>operands = \<lparr>v = [1, 2, 3, 4]\<rparr>, var_c = [Some 7], var_accum = 99\<rparr> = Inr env'
          \<and> operands env' = \<lparr>v = [1, 2, 3, 4]\<rparr> \<and> var_c env' = [Some 7]
          \<and> yield_accum (simd_reduce_expr_run 128 (c_integer Signed 4)
               (\<lambda>accum idx x. Inr (10 * accum + v x ! idx)) env') = Inr 1234)"
proof -
  let ?T = "c_integer Signed 4"
  let ?a = "\<lparr>v = [1, 2, 3, 4 :: int]\<rparr>"
  let ?b = "\<lparr>v = [10, 20, 30, 40 :: int]\<rparr>"
  let ?g = "[Some 7, None, Some 9, None :: int option]"
  let ?f = "\<lambda>accum idx x. Inr (10 * accum + v x ! idx) :: int result"
  let ?FR = "\<lparr>arg_a = ?a, arg_b = ?b, loc_c = ?g\<rparr>"
  let ?E = "\<lparr>operands = (?a, ?b), var_c = ?g, var_accum = 99 :: int\<rparr>"
  let ?S = "\<lparr>operands = ?a, var_c = [Some (7 :: int)], var_accum = 99 :: int\<rparr>"
  have n: "VLEN 128 ?T = 4" by (simp add: int32_defs)
  have u: "[0..<4] = [0, 1, 2, 3]" by (simp add: upt_rec)
  have a: "decl_simd_t 128 ?T ?a" and b: "decl_simd_t 128 ?T ?b" and m: "VLEN 128 ?T \<le> INT_MAX"
    by (simp_all add: int32_defs)

  have add: "simd_apply_binop 128 ?T (Inr ?a) (Inr ?b) (op_add ?T) = Inr \<lparr>v = [11, 22, 33, 44]\<rparr>"
    unfolding simd_apply_binop_eq [OF a b m] n u by (simp add: int32_defs)
  have mul: "simd_apply_mul 128 ?T (Inr ?a) (Inr ?b) = Inr \<lparr>v = [10, 40, 90, 160]\<rparr>"
    unfolding simd_apply_mul_def simd_apply_binop_eq [OF a b m] n u by (simp add: int32_defs)
  have p: "decl_simd_t 128 ?T \<lparr>v = [10, 40, 90, 160]\<rparr>" by (simp add: int32_defs)
  have dot: "simd_apply_dot 128 ?T (Inr ?a) (Inr ?b) = Inr 300"
    unfolding simd_apply_dot_def mul simd_apply_sum_eq [OF p m] n u by (simp add: int32_defs)
  have sum: "simd_apply_sum 128 ?T (Inr ?a) = Inr 10"
    unfolding simd_apply_sum_eq [OF a m] n u by (simp add: int32_defs)
  have red: "simd_reduce_func 128 ?T ?f (Inr ?a) = Inr 1234"
  proof -
    have m4: "(4::nat) \<le> INT_MAX" by (simp add: INT_MAX_def)
    have "simd_reduce_func 128 ?T ?f (Inr ?a) =
            fold_result (\<lambda>acc j. ?f acc j ?a) (lit_zero ?T) [0..<4]"
      unfolding simd_reduce_func_def n by (rule simd_reduce_func_loop_eq [OF m4])
    then show ?thesis unfolding u by (simp add: int32_defs)
  qed
  have rex: "simd_reduce_expr 128 ?T (\<lambda>accum i. ?f accum i ?a) (Inr ()) = Inr 1234"
  proof -
    have "simd_reduce_expr 128 ?T (\<lambda>accum i. ?f accum i ?a) (Inr ()) = simd_reduce_func 128 ?T ?f (Inr ?a)"
      unfolding simd_reduce_expr_def simd_reduce_func_def
      by (rule simd_reduce_expr_loop_func) simp
    then show ?thesis using red by simp
  qed

  note pure = simd_operations_pure [where xlen = 128 and T = ?T and op = "op_add ?T"
      and n = 4 and i = 0 and fr = ?FR and benv = ?E and denv = ?E and senv = ?S
      and func = ?f and fenv = ?S and expr = ?f and eenv = ?S and args = "Inr ()"]
  note k = conjunct2
  note p_decl = pure [THEN conjunct1]
  note p_binop = pure [THEN k, THEN k, THEN conjunct1]
  note p_binop_val = pure [THEN k, THEN k, THEN k, THEN conjunct1]
  note p_dot = pure [THEN k, THEN k, THEN k, THEN k, THEN conjunct1]
  note p_dot_val = pure [THEN k, THEN k, THEN k, THEN k, THEN k, THEN conjunct1]
  note p_sum = pure [THEN k, THEN k, THEN k, THEN k, THEN k, THEN k, THEN conjunct1]
  note p_sum_val = pure [THEN k, THEN k, THEN k, THEN k, THEN k, THEN k, THEN k, THEN conjunct1]
  note p_func = pure [THEN k, THEN k, THEN k, THEN k, THEN k, THEN k, THEN k, THEN k, THEN conjunct1]
  note p_func_val = pure [THEN k, THEN k, THEN k, THEN k, THEN k, THEN k, THEN k, THEN k, THEN k,
      THEN conjunct1]
  note p_expr = pure [THEN k, THEN k, THEN k, THEN k, THEN k, THEN k, THEN k, THEN k, THEN k,
      THEN k, THEN conjunct1]
  note p_expr_val = pure [THEN k, THEN k, THEN k, THEN k, THEN k, THEN k, THEN k, THEN k, THEN k,
      THEN k, THEN k]

  have w_decl: "\<exists>fr'. decl_simd_bin_op_loop 4 (op_add ?T) 0 ?FR = Inr fr'
          \<and> loc_c fr' = [Some 11, Some 22, Some 33, Some 44]
          \<and> arg_a fr' = ?a \<and> arg_b fr' = ?b"
  proof -
    let ?fr = "?FR\<lparr>loc_c := [Some 11, Some 22, Some 33, Some 44]\<rparr>"
    have m4: "(4::nat) \<le> INT_MAX" by (simp add: INT_MAX_def)
    have "simd_apply_binop_loop 4 (Inr ?a) (Inr ?b) (op_add ?T) 0 ?g =
            (case map_result (\<lambda>j. op_add ?T (v ?a ! j) (v ?b ! j)) [0..<4] of
               Inl e \<Rightarrow> Inl e
             | Inr xs \<Rightarrow> Inr (take 0 ?g @ map Some xs))"
      by (rule simd_apply_binop_loop_eq [OF _ _ _ m4]) simp_all
    then have "simd_apply_binop_loop 4 (Inr ?a) (Inr ?b) (op_add ?T) 0 ?g =
            Inr [Some 11, Some 22, Some 33, Some 44]"
      unfolding u by (simp add: int32_defs)
    then have run: "decl_simd_bin_op_loop 4 (op_add ?T) 0 ?FR = Inr ?fr"
      by (simp add: decl_simd_bin_op_loop_macro)
    from p_decl [THEN mp, OF run] have "arg_a ?fr = arg_a ?FR \<and> arg_b ?fr = arg_b ?FR" .
    then show ?thesis using run by (intro exI [of _ ?fr]) simp
  qed
  have w_binop: "\<exists>env'. simd_apply_binop_run 128 ?T (op_add ?T) ?E = Inr env'
          \<and> operands env' = (?a, ?b) \<and> var_accum env' = 99
          \<and> yield_c (simd_apply_binop_run 128 ?T (op_add ?T) env') = Inr \<lparr>v = [11, 22, 33, 44]\<rparr>"
  proof -
    have val: "yield_c (simd_apply_binop_run 128 ?T (op_add ?T) ?E) = Inr \<lparr>v = [11, 22, 33, 44]\<rparr>"
      unfolding p_binop_val by (simp only: macro_env.select_convs fst_conv snd_conv add)
    then obtain env' where run: "simd_apply_binop_run 128 ?T (op_add ?T) ?E = Inr env'"
      by (rule yield_c_Inr_D [THEN exE])
    from p_binop [THEN mp, OF run]
    have keep: "operands env' = operands ?E \<and> var_accum env' = var_accum ?E
          \<and> yield_c (simd_apply_binop_run 128 ?T (op_add ?T) env') = yield_c (simd_apply_binop_run 128 ?T (op_add ?T) ?E)" .
    then have again: "yield_c (simd_apply_binop_run 128 ?T (op_add ?T) env') = Inr \<lparr>v = [11, 22, 33, 44]\<rparr>"
      using val by simp
    from keep have same: "operands env' = (?a, ?b) \<and> var_accum env' = 99" by simp
    show ?thesis
      by (rule exI [of _ env']) (simp add: run same again)
  qed
  have w_dot: "\<exists>env'. simd_apply_dot_run 128 ?T ?E = Inr env'
          \<and> operands env' = (?a, ?b)
          \<and> yield_accum (simd_apply_dot_run 128 ?T env') = Inr 300"
  proof -
    have val: "yield_accum (simd_apply_dot_run 128 ?T ?E) = Inr 300"
      unfolding p_dot_val by (simp only: macro_env.select_convs fst_conv snd_conv dot)
    then obtain env' where run: "simd_apply_dot_run 128 ?T ?E = Inr env'"
      by (rule yield_accum_Inr_D [THEN exE])
    from p_dot [THEN mp, OF run]
    have keep: "operands env' = operands ?E
          \<and> yield_accum (simd_apply_dot_run 128 ?T env') = yield_accum (simd_apply_dot_run 128 ?T ?E)" .
    then have again: "yield_accum (simd_apply_dot_run 128 ?T env') = Inr 300"
      using val by simp
    from keep have same: "operands env' = (?a, ?b)" by simp
    show ?thesis
      by (rule exI [of _ env']) (simp add: run same again)
  qed
  have w_sum: "\<exists>env'. simd_apply_sum_run 128 ?T ?S = Inr env'
          \<and> operands env' = ?a \<and> var_c env' = [Some 7]
          \<and> yield_accum (simd_apply_sum_run 128 ?T env') = Inr 10"
  proof -
    have val: "yield_accum (simd_apply_sum_run 128 ?T ?S) = Inr 10"
      unfolding p_sum_val by (simp only: macro_env.select_convs fst_conv snd_conv sum)
    then obtain env' where run: "simd_apply_sum_run 128 ?T ?S = Inr env'"
      by (rule yield_accum_Inr_D [THEN exE])
    from p_sum [THEN mp, OF run]
    have keep: "operands env' = operands ?S \<and> var_c env' = var_c ?S
          \<and> yield_accum (simd_apply_sum_run 128 ?T env') = yield_accum (simd_apply_sum_run 128 ?T ?S)" .
    then have again: "yield_accum (simd_apply_sum_run 128 ?T env') = Inr 10"
      using val by simp
    from keep have same: "operands env' = ?a \<and> var_c env' = [Some 7]" by simp
    show ?thesis
      by (rule exI [of _ env']) (simp add: run same again)
  qed
  have w_func: "\<exists>env'. simd_reduce_func_run 128 ?T ?f ?S = Inr env'
          \<and> operands env' = ?a \<and> var_c env' = [Some 7]
          \<and> yield_accum (simd_reduce_func_run 128 ?T ?f env') = Inr 1234"
  proof -
    have val: "yield_accum (simd_reduce_func_run 128 ?T ?f ?S) = Inr 1234"
      unfolding p_func_val by (simp only: macro_env.select_convs fst_conv snd_conv red)
    then obtain env' where run: "simd_reduce_func_run 128 ?T ?f ?S = Inr env'"
      by (rule yield_accum_Inr_D [THEN exE])
    from p_func [THEN mp, OF run]
    have keep: "operands env' = operands ?S \<and> var_c env' = var_c ?S
          \<and> yield_accum (simd_reduce_func_run 128 ?T ?f env') = yield_accum (simd_reduce_func_run 128 ?T ?f ?S)" .
    then have again: "yield_accum (simd_reduce_func_run 128 ?T ?f env') = Inr 1234"
      using val by simp
    from keep have same: "operands env' = ?a \<and> var_c env' = [Some 7]" by simp
    show ?thesis
      by (rule exI [of _ env']) (simp add: run same again)
  qed
  have w_expr: "\<exists>env'. simd_reduce_expr_run 128 ?T ?f ?S = Inr env'
          \<and> operands env' = ?a \<and> var_c env' = [Some 7]
          \<and> yield_accum (simd_reduce_expr_run 128 ?T ?f env') = Inr 1234"
  proof -
    have val: "yield_accum (simd_reduce_expr_run 128 ?T ?f ?S) = Inr 1234"
      unfolding p_expr_val by (simp only: macro_env.select_convs fst_conv snd_conv rex)
    then obtain env' where run: "simd_reduce_expr_run 128 ?T ?f ?S = Inr env'"
      by (rule yield_accum_Inr_D [THEN exE])
    from p_expr [THEN mp, OF run]
    have keep: "operands env' = operands ?S \<and> var_c env' = var_c ?S
          \<and> yield_accum (simd_reduce_expr_run 128 ?T ?f env') = yield_accum (simd_reduce_expr_run 128 ?T ?f ?S)" .
    then have again: "yield_accum (simd_reduce_expr_run 128 ?T ?f env') = Inr 1234"
      using val by simp
    from keep have same: "operands env' = ?a \<and> var_c env' = [Some 7]" by simp
    show ?thesis
      by (rule exI [of _ env']) (simp add: run same again)
  qed
  show ?thesis
    by (rule conjI [OF w_decl conjI [OF w_binop conjI [OF w_dot conjI [OF w_sum
      conjI [OF w_func w_expr]]]]])
qed

end
